theory Spec2Isabelle
  imports Main "HOL-Library.Sublist" "HOL-Library.Char_ord" "HOL-Library.List_Lexorder"
begin

section \<open>The M3U8 downloader of spiderkit\<close>

text \<open>
  A shallow embedding of \<^verbatim>\<open>src/spiderkit/downloader/m3u8_downloader.py\<close>: the recursive
  playlist resolver \<^verbatim>\<open>_extract_segment_urls\<close>, the mapping of segment URLs to local
  files built in \<^verbatim>\<open>download_video\<close>, the two ffmpeg phases of
  \<^verbatim>\<open>_merge_and_convert_segments\<close> and the driver \<^verbatim>\<open>download_video\<close> with its
  \<^verbatim>\<open>try/except/finally\<close>.

  The packages the module calls (\<^verbatim>\<open>m3u8\<close>, \<^verbatim>\<open>urllib\<close>, \<^verbatim>\<open>os\<close>, \<^verbatim>\<open>shutil\<close>,
  \<^verbatim>\<open>tempfile\<close>, \<^verbatim>\<open>subprocess\<close>, the inherited \<^verbatim>\<open>download_files\<close> and
  \<^verbatim>\<open>config.get_config\<close>) are not part of the module. They are parameters of the model:
  records of functions, about which a theorem assumes at most a stated contract.
\<close>

subsection \<open>Exceptions\<close>

text \<open>
  The module raises \<^verbatim>\<open>RecursionError\<close> (line 55) and \<^verbatim>\<open>RuntimeError\<close> (line 162)
  itself. \<^verbatim>\<open>max\<close> of an empty sequence raises \<^verbatim>\<open>ValueError\<close>, and
  \<^verbatim>\<open>os.path.exists(None)\<close> raises \<^verbatim>\<open>TypeError\<close>. Every exception that comes out of a
  collaborator is \<open>ExternalError\<close> with the name of its class; the model takes them to
  be subclasses of \<^verbatim>\<open>Exception\<close>, which is what \<^verbatim>\<open>except Exception\<close> catches.
\<close>

datatype exn = RecursionError | ValueError | TypeError | RuntimeError | ExternalError string

subsection \<open>Playlists as the \<^verbatim>\<open>m3u8\<close> package presents them\<close>

record stream_variant =
  variant_uri :: string
  bandwidth :: int

record segment =
  seg_uri :: string
  seg_base_uri :: string

record playlist =
  is_variant :: bool
  playlists :: "stream_variant list"
  segments :: "segment list"
  base_uri :: string

text \<open>
  The collaborators of the resolver. \<open>load\<close> is \<^verbatim>\<open>m3u8.load\<close> (fetch and parse; \<open>Inl\<close> is
  the exception it raised), \<open>urljoin\<close> is \<^verbatim>\<open>urllib.parse.urljoin\<close>, and
  \<open>absolute_uri b u\<close> is what the property \<^verbatim>\<open>segment.absolute_uri\<close> gives for a segment
  with base URI \<open>b\<close> and URI \<open>u\<close> (\<open>Inl\<close> when the property raises). \<open>is_url\<close> is the
  package's test for a URI that is already absolute; the module never calls it, it only
  serves to state the package's contract.
\<close>

record m3u8_env =
  load :: "string \<Rightarrow> string + playlist"
  urljoin :: "string \<Rightarrow> string \<Rightarrow> string"
  absolute_uri :: "string \<Rightarrow> string \<Rightarrow> string + string"
  is_url :: "string \<Rightarrow> bool"

text \<open>
  Assigning \<^verbatim>\<open>playlist.base_uri\<close> runs the package's property setter, which stores the
  value and hands it on to every segment of the playlist.
\<close>

definition set_base_uri :: "string \<Rightarrow> playlist \<Rightarrow> playlist" where
  "set_base_uri b pl =
     pl\<lparr>base_uri := b, segments := map (\<lambda>s. s\<lparr>seg_base_uri := b\<rparr>) (segments pl)\<rparr>"

subsection \<open>The base URI of a playlist URL (line 59)\<close>

text \<open>
  \<^verbatim>\<open>s.rsplit("/", 1)[0]\<close>: the part of \<open>s\<close> before its last \<^verbatim>\<open>/\<close>, and all of \<open>s\<close> when it
  has none (the split then returns the one-element list \<^verbatim>\<open>[s]\<close>).
\<close>

definition rsplit_head :: "string \<Rightarrow> string" where
  "rsplit_head s =
     (if CHR ''/'' \<in> set s then rev (tl (dropWhile (\<lambda>c. c \<noteq> CHR ''/'') (rev s))) else s)"

definition playlist_base :: "string \<Rightarrow> string" where
  "playlist_base m3u8_url = rsplit_head m3u8_url @ ''/''"

subsection \<open>Python's \<^verbatim>\<open>max\<close> with a key (line 63)\<close>

text \<open>
  \<^verbatim>\<open>max\<close> walks the sequence once and replaces the item it holds only by one whose key is
  strictly greater; on an empty sequence it raises \<^verbatim>\<open>ValueError\<close>.
\<close>

fun max_from :: "('a \<Rightarrow> int) \<Rightarrow> 'a \<Rightarrow> 'a list \<Rightarrow> 'a" where
  "max_from key m [] = m"
| "max_from key m (x # xs) = (if key x > key m then max_from key x xs else max_from key m xs)"

definition py_max :: "('a \<Rightarrow> int) \<Rightarrow> 'a list \<Rightarrow> exn + 'a" where
  "py_max key xs = (case xs of [] \<Rightarrow> Inl ValueError | x # rest \<Rightarrow> Inr (max_from key x rest))"

subsection \<open>\<^verbatim>\<open>_extract_segment_urls\<close> (lines 39 to 76)\<close>

text \<open>
  The loop of lines 68 to 73. \<open>pb\<close> is \<^verbatim>\<open>playlist.base_uri\<close>. The property
  \<^verbatim>\<open>segment.absolute_uri\<close> is read twice, once by the test and once by \<^verbatim>\<open>append\<close>; an
  empty string is what Python's \<^verbatim>\<open>not\<close> takes for false.
\<close>

fun collect_segment_urls :: "m3u8_env \<Rightarrow> string \<Rightarrow> segment list \<Rightarrow> string list \<Rightarrow> exn + string list" where
  "collect_segment_urls env pb [] segment_urls = Inr segment_urls"
| "collect_segment_urls env pb (s # rest) segment_urls =
     (case absolute_uri env (seg_base_uri s) (seg_uri s) of
        Inl e \<Rightarrow> Inl (ExternalError e)
      | Inr a \<Rightarrow>
          (let s' = (if a = [] then s\<lparr>seg_base_uri := pb\<rparr> else s) in
           case absolute_uri env (seg_base_uri s') (seg_uri s') of
             Inl e \<Rightarrow> Inl (ExternalError e)
           | Inr a' \<Rightarrow> collect_segment_urls env pb rest (segment_urls @ [a'])))"

text \<open>
  The \<^verbatim>\<open>except Exception\<close> of line 74 logs and raises again, so the result is the one of
  the \<^verbatim>\<open>try\<close> block. The depths are Python integers.
\<close>

function extract_segment_urls :: "m3u8_env \<Rightarrow> string \<Rightarrow> int \<Rightarrow> int \<Rightarrow> exn + string list" where
  "extract_segment_urls env m3u8_url max_depth current_depth =
     (if current_depth \<ge> max_depth then Inl RecursionError
      else case load env m3u8_url of
        Inl e \<Rightarrow> Inl (ExternalError e)
      | Inr loaded \<Rightarrow>
          (let playlist = set_base_uri (playlist_base m3u8_url) loaded in
           if is_variant playlist then
             (case py_max bandwidth (playlists playlist) of
                Inl e \<Rightarrow> Inl e
              | Inr selected_stream \<Rightarrow>
                  extract_segment_urls env
                    (urljoin env (base_uri playlist) (variant_uri selected_stream))
                    max_depth (current_depth + 1))
           else collect_segment_urls env (base_uri playlist) (segments playlist) []))"
  by pat_completeness auto
termination
  by (relation "measure (\<lambda>(env, m3u8_url, max_depth, current_depth). nat (max_depth - current_depth))")
     auto

declare extract_segment_urls.simps [simp del]


text \<open>
  What the resolver's depth test amounts to, in the words of the specification's
  ``variant chain'': \<open>variant_chain env url n\<close> says that \<open>n\<close> playlists in a row, the first
  at \<open>url\<close> and each next one at the selected variant of the one before, load as master
  playlists with at least one variant.
\<close>

fun variant_chain :: "m3u8_env \<Rightarrow> string \<Rightarrow> nat \<Rightarrow> bool" where
  "variant_chain env url 0 = True"
| "variant_chain env url (Suc n) =
     (case load env url of
        Inl e \<Rightarrow> False
      | Inr pl \<Rightarrow>
          is_variant pl \<and>
          (case playlists pl of
             [] \<Rightarrow> False
           | v # vs \<Rightarrow>
               variant_chain env
                 (urljoin env (playlist_base url) (variant_uri (max_from bandwidth v vs))) n))"

subsection \<open>The download map (line 150)\<close>

text \<open>
  \<^verbatim>\<open>f"segment_{idx:04d}.ts"\<close>: the decimal digits of the index, padded with zeros on the
  left to a width of at least four. \<^verbatim>\<open>enumerate\<close> counts from zero, so the index is a
  natural number and there is no sign.
\<close>

definition digit_char :: "nat \<Rightarrow> char" where
  "digit_char d = char_of (48 + d)"

fun decimal :: "nat \<Rightarrow> string" where
  "decimal n = (if n < 10 then [digit_char n] else decimal (n div 10) @ [digit_char (n mod 10)])"

declare decimal.simps [simp del]

definition format_04d :: "nat \<Rightarrow> string" where
  "format_04d idx = replicate (4 - length (decimal idx)) CHR ''0'' @ decimal idx"

text \<open>
  \<^verbatim>\<open>os.path.join(a, b)\<close> of \<^verbatim>\<open>posixpath\<close>: \<open>b\<close> alone when it is absolute, else \<open>a\<close>
  and \<open>b\<close> with one separator between them unless \<open>a\<close> is empty or ends in one.
\<close>

definition path_join :: "string \<Rightarrow> string \<Rightarrow> string" where
  "path_join a b =
     (if take 1 b = ''/'' then b
      else if a = [] \<or> last a = CHR ''/'' then a @ b
      else a @ ''/'' @ b)"

definition segment_path :: "string \<Rightarrow> nat \<Rightarrow> string" where
  "segment_path segments_dir idx = path_join segments_dir (''segment_'' @ format_04d idx @ ''.ts'')"

text \<open>
  A Python \<^verbatim>\<open>dict\<close> keeps its keys in the order of their first insertion; storing under
  a key that is present replaces the value and leaves the position.
\<close>

fun dict_set :: "'k \<Rightarrow> 'v \<Rightarrow> ('k \<times> 'v) list \<Rightarrow> ('k \<times> 'v) list" where
  "dict_set k v [] = [(k, v)]"
| "dict_set k v ((k', v') # m) = (if k' = k then (k', v) # m else (k', v') # dict_set k v m)"

definition download_map_of :: "string \<Rightarrow> string list \<Rightarrow> (string \<times> string) list" where
  "download_map_of segments_dir segment_urls =
     fold (\<lambda>(idx, url) m. dict_set (segment_path segments_dir idx) url m)
       (enumerate 0 segment_urls) []"


subsection \<open>The operating system and the other collaborators of the pipeline\<close>

text \<open>
  \<open>'w\<close> is the state of everything outside the program (the file system above all). Each
  operation takes the state and returns the new one; \<open>Some e\<close> or \<open>Inl e\<close> in a result is
  the exception the call raised. \<open>makedirs\<close> is \<^verbatim>\<open>os.makedirs(p, exist_ok=True)\<close>,
  \<open>mkdtemp\<close> is \<^verbatim>\<open>tempfile.mkdtemp(prefix=p)\<close>, \<open>write_lines\<close> is the \<^verbatim>\<open>with open(p, "w")\<close>
  block of lines 95 to 97, \<open>run\<close> is \<^verbatim>\<open>subprocess.run\<close> and \<open>download_files\<close> is the method
  the class inherits from \<^verbatim>\<open>Downloader\<close>.
\<close>

datatype run_result = Exited int | SpawnError string

record 'w os_env =
  path_exists :: "string \<Rightarrow> 'w \<Rightarrow> bool"
  makedirs :: "string \<Rightarrow> 'w \<Rightarrow> string option \<times> 'w"
  mkdtemp :: "string \<Rightarrow> 'w \<Rightarrow> (string + string) \<times> 'w"
  write_lines :: "string \<Rightarrow> string list \<Rightarrow> 'w \<Rightarrow> string option \<times> 'w"
  remove :: "string \<Rightarrow> 'w \<Rightarrow> string option \<times> 'w"
  rmtree :: "string \<Rightarrow> 'w \<Rightarrow> string option \<times> 'w"
  run :: "string list \<Rightarrow> 'w \<Rightarrow> run_result \<times> 'w"
  download_files :: "(string \<times> string) list \<Rightarrow> 'w \<Rightarrow> string option \<times> 'w"
  abspath :: "string \<Rightarrow> string"

text \<open>
  The two fields of the object \<^verbatim>\<open>get_config()\<close> returns that the module reads. The
  module \<^verbatim>\<open>config\<close> is not among the sources: the object is a parameter of the model, and
  the call is taken to return.
\<close>

record config =
  cleanup_temp_files :: bool
  temp_dir :: "string option"

text \<open>
  \<^verbatim>\<open>os.path.dirname\<close> of \<^verbatim>\<open>posixpath\<close>: the path up to its last separator, without the
  separators at the end of that unless it consists of separators only.
\<close>

definition rstrip_slash :: "string \<Rightarrow> string" where
  "rstrip_slash s = rev (dropWhile (\<lambda>c. c = CHR ''/'') (rev s))"

definition dirname :: "string \<Rightarrow> string" where
  "dirname p =
     (let head = rev (dropWhile (\<lambda>c. c \<noteq> CHR ''/'') (rev p))
      in if head \<noteq> [] \<and> rstrip_slash head \<noteq> [] then rstrip_slash head else head)"

subsection \<open>\<^verbatim>\<open>_merge_and_convert_segments\<close> (lines 78 to 114)\<close>

definition manifest_lines :: "'w os_env \<Rightarrow> string list \<Rightarrow> string list" where
  "manifest_lines os segment_files =
     map (\<lambda>file_path. ''file '' @ [CHR 0x27] @ abspath os file_path @ [CHR 0x27, CHR 0x0A]) segment_files"

definition merge_cmd :: "string \<Rightarrow> string \<Rightarrow> string list" where
  "merge_cmd file_list_path intermediate_ts_path =
     [''ffmpeg'', ''-y'', ''-f'', ''concat'', ''-safe'', ''0'', ''-i'', file_list_path,
      ''-c'', ''copy'', intermediate_ts_path]"

definition convert_cmd :: "string \<Rightarrow> string \<Rightarrow> string list" where
  "convert_cmd intermediate_ts_path final_output_path =
     [''ffmpeg'', ''-y'', ''-i'', intermediate_ts_path, ''-c'', ''copy'',
      ''-movflags'', ''faststart'', final_output_path]"

text \<open>
  The \<^verbatim>\<open>try\<close> block with its \<^verbatim>\<open>except Exception\<close>: \<^verbatim>\<open>True\<close> after both processes
  exited with status 0, \<^verbatim>\<open>False\<close> as soon as a call raised. With \<^verbatim>\<open>check=True\<close> a
  status other than 0 raises \<^verbatim>\<open>CalledProcessError\<close>.
\<close>

definition merge_and_convert_try :: "'w os_env \<Rightarrow> string list \<Rightarrow> string \<Rightarrow> string \<Rightarrow> 'w \<Rightarrow> bool \<times> 'w" where
  "merge_and_convert_try os segment_files intermediate_ts_path final_output_path w =
     (let file_list_path = intermediate_ts_path @ ''.txt'' in
      case write_lines os file_list_path (manifest_lines os segment_files) w of
        (Some e, w1) \<Rightarrow> (False, w1)
      | (None, w1) \<Rightarrow>
          (case run os (merge_cmd file_list_path intermediate_ts_path) w1 of
             (merged, w2) \<Rightarrow>
               if merged \<noteq> Exited 0 then (False, w2)
               else (case run os (convert_cmd intermediate_ts_path final_output_path) w2 of
                       (converted, w3) \<Rightarrow> (converted = Exited 0, w3))))"

text \<open>
  The \<^verbatim>\<open>finally\<close> clause runs after the \<^verbatim>\<open>return\<close> of either branch; an exception
  raised inside it takes the place of the value that was about to be returned.
\<close>

definition merge_and_convert_segments :: "'w os_env \<Rightarrow> string list \<Rightarrow> string \<Rightarrow> string \<Rightarrow> 'w \<Rightarrow> (exn + bool) \<times> 'w" where
  "merge_and_convert_segments os segment_files intermediate_ts_path final_output_path w =
     (let file_list_path = intermediate_ts_path @ ''.txt'' in
      case merge_and_convert_try os segment_files intermediate_ts_path final_output_path w of
        (success, w1) \<Rightarrow>
          if path_exists os file_list_path w1 then
            (case remove os file_list_path w1 of
               (Some e, w2) \<Rightarrow> (Inl (ExternalError e), w2)
             | (None, w2) \<Rightarrow> (Inr success, w2))
          else (Inr success, w1))"

subsection \<open>\<^verbatim>\<open>download_video\<close> (lines 116 to 171)\<close>

text \<open>
  Lines 136 to 139. \<^verbatim>\<open>not temp_directory\<close> holds for \<^verbatim>\<open>None\<close> and for the empty string,
  and \<^verbatim>\<open>config.temp_dir or tempfile.mkdtemp(...)\<close> calls \<^verbatim>\<open>mkdtemp\<close> only when the
  configured directory is \<^verbatim>\<open>None\<close> or empty. The result is the new value of the local
  variable \<^verbatim>\<open>temp_directory\<close>, or the exception.
\<close>

definition make_temp :: "'w os_env \<Rightarrow> 'w \<Rightarrow> (exn + string) \<times> 'w" where
  "make_temp os w =
     (case mkdtemp os ''m3u8_download_'' w of
        (Inl e, w') \<Rightarrow> (Inl (ExternalError e), w')
      | (Inr d, w') \<Rightarrow> (Inr d, w'))"

definition config_or_temp :: "'w os_env \<Rightarrow> config \<Rightarrow> 'w \<Rightarrow> (exn + string) \<times> 'w" where
  "config_or_temp os cfg w =
     (case temp_dir cfg of
        None \<Rightarrow> make_temp os w
      | Some d \<Rightarrow> if d = [] then make_temp os w else (Inr d, w))"

definition prepare_workspace :: "'w os_env \<Rightarrow> config \<Rightarrow> string option \<Rightarrow> 'w \<Rightarrow> (exn + string) \<times> 'w" where
  "prepare_workspace os cfg temp_directory w =
     (case temp_directory of
        None \<Rightarrow> config_or_temp os cfg w
      | Some t \<Rightarrow>
          if t = [] then config_or_temp os cfg w
          else (case makedirs os t w of
                  (Some e, w') \<Rightarrow> (Inl (ExternalError e), w')
                | (None, w') \<Rightarrow> (Inr t, w')))"

text \<open>
  Lines 141 to 164, once \<^verbatim>\<open>temp_directory\<close> is set: the rest of the \<^verbatim>\<open>try\<close> block. The
  resolver is called with its default depths, 5 and 0. \<open>None\<close> is the normal end of the
  block, \<open>Some e\<close> the exception that leaves it; the \<^verbatim>\<open>except Exception\<close> of line 165
  logs it and raises it again.
\<close>

definition run_stages :: "m3u8_env \<Rightarrow> 'w os_env \<Rightarrow> string \<Rightarrow> string \<Rightarrow> string \<Rightarrow> 'w \<Rightarrow> exn option \<times> 'w" where
  "run_stages env os m3u8_url output_path temp_directory w =
     (let segments_dir = path_join temp_directory ''ts_segments'' in
      case makedirs os segments_dir w of
        (Some e, w1) \<Rightarrow> (Some (ExternalError e), w1)
      | (None, w1) \<Rightarrow>
     (let output_dir = dirname output_path in
      case (if output_dir \<noteq> [] then makedirs os output_dir w1 else (None, w1)) of
        (Some e, w2) \<Rightarrow> (Some (ExternalError e), w2)
      | (None, w2) \<Rightarrow>
     (case extract_segment_urls env m3u8_url 5 0 of
        Inl e \<Rightarrow> (Some e, w2)
      | Inr segment_urls \<Rightarrow>
     (let download_map = download_map_of segments_dir segment_urls in
      case download_files os download_map w2 of
        (Some e, w3) \<Rightarrow> (Some (ExternalError e), w3)
      | (None, w3) \<Rightarrow>
     (let segment_files = map fst download_map;
          merged_ts_path = path_join temp_directory ''merged_video.ts'' in
      case merge_and_convert_segments os segment_files merged_ts_path output_path w3 of
        (Inl e, w4) \<Rightarrow> (Some e, w4)
      | (Inr success, w4) \<Rightarrow>
          if \<not> success then (Some RuntimeError, w4) else (None, w4))))))"

text \<open>
  The \<^verbatim>\<open>finally\<close> clause of lines 168 to 171. \<open>temp_directory\<close> is the local variable as
  the \<^verbatim>\<open>try\<close> block left it: still \<^verbatim>\<open>None\<close> when the caller passed none and no
  directory was obtained, and then \<^verbatim>\<open>os.path.exists(None)\<close> raises \<^verbatim>\<open>TypeError\<close>. An
  exception raised here takes the place of the one on its way to the caller.
\<close>

definition finally_cleanup :: "'w os_env \<Rightarrow> bool \<Rightarrow> string option \<Rightarrow> exn option \<Rightarrow> 'w \<Rightarrow> exn option \<times> 'w" where
  "finally_cleanup os cleanup_temp temp_directory pending w =
     (if cleanup_temp then
        (case temp_directory of
           None \<Rightarrow> (Some TypeError, w)
         | Some t \<Rightarrow>
             if path_exists os t w then
               (case rmtree os t w of
                  (Some e, w') \<Rightarrow> (Some (ExternalError e), w')
                | (None, w') \<Rightarrow> (pending, w'))
             else (pending, w))
      else (pending, w))"

text \<open>The value of the local variable \<^verbatim>\<open>temp_directory\<close> when the \<^verbatim>\<open>finally\<close> clause starts.\<close>

definition local_temp_directory :: "'w os_env \<Rightarrow> config \<Rightarrow> string option \<Rightarrow> 'w \<Rightarrow> string option" where
  "local_temp_directory os cfg temp_directory w =
     (case fst (prepare_workspace os cfg temp_directory w) of
        Inl e \<Rightarrow> temp_directory
      | Inr t \<Rightarrow> Some t)"

definition effective_cleanup :: "config \<Rightarrow> bool option \<Rightarrow> bool" where
  "effective_cleanup cfg cleanup_temp =
     (case cleanup_temp of None \<Rightarrow> cleanup_temp_files cfg | Some b \<Rightarrow> b)"

text \<open>The \<^verbatim>\<open>try\<close> block of \<^verbatim>\<open>download_video\<close> up to the \<^verbatim>\<open>finally\<close> clause.\<close>

definition download_video_try :: "m3u8_env \<Rightarrow> 'w os_env \<Rightarrow> config \<Rightarrow> string \<Rightarrow> string \<Rightarrow> string option \<Rightarrow> 'w \<Rightarrow> exn option \<times> 'w" where
  "download_video_try env os cfg m3u8_url output_path temp_directory w =
     (case prepare_workspace os cfg temp_directory w of
        (Inl e, w1) \<Rightarrow> (Some e, w1)
      | (Inr t, w1) \<Rightarrow> run_stages env os m3u8_url output_path t w1)"

definition download_video :: "m3u8_env \<Rightarrow> 'w os_env \<Rightarrow> config \<Rightarrow> string \<Rightarrow> string \<Rightarrow> string option \<Rightarrow> bool option \<Rightarrow> 'w \<Rightarrow> exn option \<times> 'w" where
  "download_video env os cfg m3u8_url output_path temp_directory cleanup_temp w =
     (case download_video_try env os cfg m3u8_url output_path temp_directory w of
        (pending, w1) \<Rightarrow>
          finally_cleanup os (effective_cleanup cfg cleanup_temp)
            (local_temp_directory os cfg temp_directory w) pending w1)"

subsection \<open>Recording the calls\<close>

text \<open>
  To speak about which calls a run makes, the operating system is wrapped so that it
  keeps a log: every call that can change the state is appended with a flag that says
  whether it completed (for \<open>Run\<close>: whether the exit status was 0). The program is the
  same; only its environment records.
\<close>

datatype call =
    Makedirs string
  | Mkdtemp string
  | WriteLines string "string list"
  | Remove string
  | Rmtree string
  | Run "string list"
  | DownloadFiles "(string \<times> string) list"

definition traced :: "'w os_env \<Rightarrow> ('w \<times> (call \<times> bool) list) os_env" where
  "traced os = \<lparr>
     path_exists = (\<lambda>p (w, tr). path_exists os p w),
     makedirs = (\<lambda>p (w, tr). case makedirs os p w of (r, w') \<Rightarrow> (r, (w', tr @ [(Makedirs p, r = None)]))),
     mkdtemp = (\<lambda>p (w, tr). case mkdtemp os p w of (r, w') \<Rightarrow> (r, (w', tr @ [(Mkdtemp p, \<not> isl r)]))),
     write_lines = (\<lambda>p ls (w, tr). case write_lines os p ls w of
                      (r, w') \<Rightarrow> (r, (w', tr @ [(WriteLines p ls, r = None)]))),
     remove = (\<lambda>p (w, tr). case remove os p w of (r, w') \<Rightarrow> (r, (w', tr @ [(Remove p, r = None)]))),
     rmtree = (\<lambda>p (w, tr). case rmtree os p w of (r, w') \<Rightarrow> (r, (w', tr @ [(Rmtree p, r = None)]))),
     run = (\<lambda>cmd (w, tr). case run os cmd w of (r, w') \<Rightarrow> (r, (w', tr @ [(Run cmd, r = Exited 0)]))),
     download_files = (\<lambda>m (w, tr). case download_files os m w of
                         (r, w') \<Rightarrow> (r, (w', tr @ [(DownloadFiles m, r = None)]))),
     abspath = abspath os\<rparr>"


subsection \<open>The call sequences of the pipeline\<close>

text \<open>
  The shapes a log can take, stage by stage. They are what the lemmas about the traced
  program establish, and what the theorems about the order of the stages rest on.
  A removal is a call that deletes: the manifest in \<^verbatim>\<open>_merge_and_convert_segments\<close>, the
  workspace in \<^verbatim>\<open>download_video\<close>. Every other call belongs to a forward stage.
\<close>

fun is_removal :: "call \<Rightarrow> bool" where
  "is_removal (Remove p) = True"
| "is_removal (Rmtree p) = True"
| "is_removal c = False"

text \<open>Once a forward call has failed, only removals follow.\<close>

fun halts_on_failure :: "(call \<times> bool) list \<Rightarrow> bool" where
  "halts_on_failure [] = True"
| "halts_on_failure ((c, ok) # es) =
     (if \<not> is_removal c \<and> \<not> ok then list_all (\<lambda>e. is_removal (fst e)) es
      else halts_on_failure es)"

definition merge_trace :: "'w os_env \<Rightarrow> string list \<Rightarrow> string \<Rightarrow> string \<Rightarrow> bool \<Rightarrow> (call \<times> bool) list \<Rightarrow> bool" where
  "merge_trace os segment_files ts out success evs =
     (let m = ts @ ''.txt''; written = WriteLines m (manifest_lines os segment_files) in
        evs = [(written, False)] \<and> \<not> success
      \<or> evs = [(written, True), (Run (merge_cmd m ts), False)] \<and> \<not> success
      \<or> evs = [(written, True), (Run (merge_cmd m ts), True), (Run (convert_cmd ts out), success)])"

definition manifest_removal :: "string \<Rightarrow> bool \<Rightarrow> exn + bool \<Rightarrow> (call \<times> bool) list \<Rightarrow> bool" where
  "manifest_removal ts success r evs =
     (evs = [] \<and> r = Inr success
      \<or> evs = [(Remove (ts @ ''.txt''), True)] \<and> r = Inr success
      \<or> evs = [(Remove (ts @ ''.txt''), False)] \<and> isl r)"

definition stages_trace :: "m3u8_env \<Rightarrow> 'w os_env \<Rightarrow> string \<Rightarrow> string \<Rightarrow> string \<Rightarrow> exn option \<Rightarrow> (call \<times> bool) list \<Rightarrow> bool" where
  "stages_trace env os m3u8_url out t pending evs =
     (let segments_dir = path_join t ''ts_segments'';
          ts = path_join t ''merged_video.ts'';
          made = (Makedirs segments_dir, True) #
                 (if dirname out \<noteq> [] then [(Makedirs (dirname out), True)] else [])
      in evs = [(Makedirs segments_dir, False)] \<and> pending \<noteq> None
       \<or> dirname out \<noteq> [] \<and> pending \<noteq> None
           \<and> evs = [(Makedirs segments_dir, True), (Makedirs (dirname out), False)]
       \<or> evs = made \<and> isl (extract_segment_urls env m3u8_url 5 0) \<and> pending \<noteq> None
       \<or> (\<exists>urls. extract_segment_urls env m3u8_url 5 0 = Inr urls
            \<and> (evs = made @ [(DownloadFiles (download_map_of segments_dir urls), False)]
                  \<and> pending \<noteq> None
                  \<and> (\<exists>e w2 w3. download_files os (download_map_of segments_dir urls) w2 = (Some e, w3)
                         \<and> pending = Some (ExternalError e))
               \<or> (\<exists>success r mevs fin.
                     evs = made @ [(DownloadFiles (download_map_of segments_dir urls), True)]
                             @ mevs @ fin
                   \<and> merge_trace os (map fst (download_map_of segments_dir urls)) ts out success mevs
                   \<and> manifest_removal ts success r fin
                   \<and> (pending = None) = (r = Inr True)))))"

text \<open>
  The preparation of the workspace makes at most one call, and it fails exactly when that
  call does; the \<^verbatim>\<open>finally\<close> clause of \<^verbatim>\<open>download_video\<close> makes at most one, the recursive
  removal of the workspace, and only with the flag set and the directory found.
\<close>

definition prepare_trace :: "exn + string \<Rightarrow> (call \<times> bool) list \<Rightarrow> bool" where
  "prepare_trace prepared evs =
     (evs = [] \<and> \<not> isl prepared
      \<or> (\<exists>p. evs = [(Mkdtemp p, \<not> isl prepared)])
      \<or> (\<exists>t. evs = [(Makedirs t, \<not> isl prepared)] \<and> (\<not> isl prepared \<longrightarrow> prepared = Inr t)))"

definition cleanup_trace :: "'w os_env \<Rightarrow> bool \<Rightarrow> string option \<Rightarrow> exn option \<Rightarrow> exn option \<Rightarrow> 'w \<Rightarrow> 'w \<Rightarrow> (call \<times> bool) list \<Rightarrow> bool" where
  "cleanup_trace os cleanup_temp temp_directory pending r w1 w' evs =
     (if \<not> cleanup_temp then evs = [] \<and> r = pending \<and> w' = w1
      else case temp_directory of
        None \<Rightarrow> evs = [] \<and> r = Some TypeError \<and> w' = w1
      | Some t \<Rightarrow>
          if \<not> path_exists os t w1 then evs = [] \<and> r = pending \<and> w' = w1
          else evs = [(Rmtree t, True)] \<and> r = pending \<and> rmtree os t w1 = (None, w')
             \<or> evs = [(Rmtree t, False)]
                 \<and> (\<exists>e. r = Some (ExternalError e) \<and> rmtree os t w1 = (Some e, w')))"


subsection \<open>The value of a string of digits\<close>

text \<open>The left inverse of \<open>decimal\<close> and of \<open>format_04d\<close>; it shows that they are injective.\<close>

definition digits_value :: "string \<Rightarrow> nat" where
  "digits_value s = foldl (\<lambda>a c. 10 * a + (of_char c - 48)) 0 s"

subsection \<open>A concrete environment\<close>

text \<open>
  A master playlist with three variants, two of which share the greatest bandwidth, and
  the media playlist of the first of these, with one relative and one absolute segment
  URI. The base URIs the parser supplied differ from the one the resolver computes.
\<close>

definition demo_master :: playlist where
  "demo_master = \<lparr>is_variant = True,
     playlists = [\<lparr>variant_uri = ''lo.m3u8'', bandwidth = 500000\<rparr>,
                  \<lparr>variant_uri = ''hi.m3u8'', bandwidth = 1200000\<rparr>,
                  \<lparr>variant_uri = ''alt.m3u8'', bandwidth = 1200000\<rparr>],
     segments = [], base_uri = ''http://cdn.example/parsed/''\<rparr>"

definition demo_media :: playlist where
  "demo_media = \<lparr>is_variant = False, playlists = [],
     segments = [\<lparr>seg_uri = ''a.ts'', seg_base_uri = ''http://cdn.example/parsed/''\<rparr>,
                 \<lparr>seg_uri = ''http://other.example/b.ts'',
                  seg_base_uri = ''http://cdn.example/parsed/''\<rparr>],
     base_uri = ''http://cdn.example/parsed/''\<rparr>"

definition demo_is_url :: "string \<Rightarrow> bool" where
  "demo_is_url u = (take 7 u = ''http://'' \<or> take 8 u = ''https://'')"

definition demo_env :: m3u8_env where
  "demo_env = \<lparr>
     load = (\<lambda>url. if url = ''http://h/v/master.m3u8'' then Inr demo_master
                    else if url = ''http://h/v/hi.m3u8'' then Inr demo_media
                    else Inl ''HTTPError''),
     urljoin = (\<lambda>b u. if demo_is_url u then u else b @ u),
     absolute_uri = (\<lambda>b u. Inr (if demo_is_url u then u else b @ u)),
     is_url = demo_is_url\<rparr>"

text \<open>
  An operating system whose state is the list of the paths that exist. Nothing can be
  created under \<^verbatim>\<open>/proc/\<close>. \<open>fetched\<close> says which of the requested files the fetch engine
  writes before it returns; the two numbers are the exit statuses of the concatenation
  and of the remux, each of which leaves its output file behind whatever its status.
\<close>

definition demo_os :: "(string list \<Rightarrow> string list) \<Rightarrow> int \<Rightarrow> int \<Rightarrow> (string list) os_env" where
  "demo_os fetched merge_status convert_status = \<lparr>
     path_exists = (\<lambda>p w. p \<in> set w),
     makedirs = (\<lambda>p w. if take 6 p = ''/proc/'' then (Some ''FileNotFoundError'', w)
                         else (None, List.insert p w)),
     mkdtemp = (\<lambda>p w. (Inr (''/tmp/'' @ p @ ''0''), List.insert (''/tmp/'' @ p @ ''0'') w)),
     write_lines = (\<lambda>p ls w. (None, List.insert p w)),
     remove = (\<lambda>p w. if p \<in> set w then (None, removeAll p w) else (Some ''FileNotFoundError'', w)),
     rmtree = (\<lambda>p w. if p \<in> set w then (None, filter (\<lambda>q. \<not> prefix p q) w)
                       else (Some ''FileNotFoundError'', w)),
     run = (\<lambda>cmd w. (Exited (if ''-movflags'' \<in> set cmd then convert_status else merge_status),
                       List.insert (last cmd) w)),
     download_files = (\<lambda>m w. (None, fetched (map fst m) @ w)),
     abspath = (\<lambda>p. p)\<rparr>"

definition demo_cfg :: config where
  "demo_cfg = \<lparr>cleanup_temp_files = True, temp_dir = None\<rparr>"

text \<open>Ten thousand and one distinct segment URLs.\<close>

definition many_urls :: "string list" where
  "many_urls = map (\<lambda>i. ''http://h/v/seg'' @ decimal i @ ''.ts'') [0..<10001]"

section \<open>The resolver\<close>

subsection \<open>The selection of a variant\<close>

lemma max_from_first:
  "\<exists>pre post. m # xs = pre @ max_from key m xs # post
     \<and> (\<forall>x\<in>set pre. key x < key (max_from key m xs))
     \<and> (\<forall>x\<in>set post. key x \<le> key (max_from key m xs))"
proof (induction xs arbitrary: m)
  case Nil
  show ?case by (intro exI [of _ "[]"]) simp
next
  case (Cons x xs)
  define sel where "sel = max_from key m (x # xs)"
  show ?case
  proof (cases "key x > key m")
    case True
    then have sel: "sel = max_from key x xs" by (simp add: sel_def)
    from Cons.IH [of x] sel obtain pre post where
      d: "x # xs = pre @ sel # post"
      and l: "\<forall>y\<in>set pre. key y < key sel"
      and r: "\<forall>y\<in>set post. key y \<le> key sel" by auto
    have "key x \<le> key sel"
      using d l by (cases pre) auto
    with True have "key m < key sel" by simp
    with l have l': "\<forall>y\<in>set (m # pre). key y < key sel" by simp
    from d have "m # x # xs = (m # pre) @ sel # post" by simp
    with l' r show ?thesis unfolding sel_def [symmetric] by blast
  next
    case False
    then have sel: "sel = max_from key m xs" by (simp add: sel_def)
    from Cons.IH [of m] sel obtain pre post where
      d: "m # xs = pre @ sel # post"
      and l: "\<forall>y\<in>set pre. key y < key sel"
      and r: "\<forall>y\<in>set post. key y \<le> key sel" by auto
    show ?thesis
    proof (cases pre)
      case Nil
      with d have m: "m = sel" and xs: "xs = post" by simp_all
      with False r have r': "\<forall>y\<in>set (x # post). key y \<le> key sel" by simp
      have l': "\<forall>y\<in>set ([]::'a list). key y < key sel" by simp
      from m xs have "m # x # xs = [] @ sel # (x # post)" by simp
      with l' r' show ?thesis unfolding sel_def [symmetric] by blast
    next
      case (Cons p pre')
      with d have p: "p = m" and xs: "xs = pre' @ sel # post" by simp_all
      from l Cons p have "key m < key sel" by simp
      with False l Cons have l': "\<forall>y\<in>set (m # x # pre'). key y < key sel" by simp
      from xs have "m # x # xs = (m # x # pre') @ sel # post" by simp
      with l' r show ?thesis unfolding sel_def [symmetric] by blast
    qed
  qed
qed


subsection \<open>The base URI\<close>




subsection \<open>One step of the resolver\<close>

lemma collect_not_recursion: "collect_segment_urls env pb segs acc \<noteq> Inl RecursionError"
  by (induction segs arbitrary: acc) (auto split: sum.splits simp: Let_def)

lemma collect_char:
  assumes "\<forall>s\<in>set segs. seg_base_uri s = pb"
  shows "collect_segment_urls env pb segs acc = Inr rs \<longleftrightarrow>
     (\<exists>ys. rs = acc @ ys \<and> list_all2 (\<lambda>s y. absolute_uri env pb (seg_uri s) = Inr y) segs ys)"
  using assms
proof (induction segs arbitrary: acc)
  case Nil
  then show ?case by auto
next
  case (Cons s segs)
  show ?case
  proof (cases "absolute_uri env pb (seg_uri s)")
    case (Inl e)
    with Cons.prems show ?thesis by (auto simp: list_all2_Cons1)
  next
    case (Inr a)
    with Cons.prems have "collect_segment_urls env pb (s # segs) acc
        = collect_segment_urls env pb segs (acc @ [a])"
      by (simp add: Let_def)
    moreover from Cons.prems have "\<forall>s\<in>set segs. seg_base_uri s = pb" by simp
    ultimately show ?thesis
      using Cons.IH [of "acc @ [a]"] Inr by (auto simp: list_all2_Cons1)
  qed
qed

lemma extract_media:
  assumes "current_depth < max_depth" "load env url = Inr pl" "\<not> is_variant pl"
  shows "extract_segment_urls env url max_depth current_depth = Inr rs \<longleftrightarrow>
     list_all2 (\<lambda>s y. absolute_uri env (playlist_base url) (seg_uri s) = Inr y) (segments pl) rs"
proof -
  let ?b = "playlist_base url"
  let ?segs = "map (\<lambda>s. s\<lparr>seg_base_uri := ?b\<rparr>) (segments pl)"
  have "extract_segment_urls env url max_depth current_depth = collect_segment_urls env ?b ?segs []"
    using assms by (simp add: extract_segment_urls.simps [of env url] set_base_uri_def)
  moreover have "\<forall>s\<in>set ?segs. seg_base_uri s = ?b" by simp
  ultimately show ?thesis
    by (simp add: collect_char list_all2_map1)
qed

lemma extract_master:
  assumes "current_depth < max_depth" "load env url = Inr pl" "is_variant pl"
    "playlists pl = v # vs"
  shows "extract_segment_urls env url max_depth current_depth =
     extract_segment_urls env (urljoin env (playlist_base url) (variant_uri (max_from bandwidth v vs)))
       max_depth (current_depth + 1)"
  using assms by (simp add: extract_segment_urls.simps [of env url] set_base_uri_def py_max_def)


lemma extract_too_deep:
  "max_depth \<le> current_depth \<Longrightarrow> extract_segment_urls env url max_depth current_depth = Inl RecursionError"
  by (simp add: extract_segment_urls.simps [of env url])

lemma extract_load_failed:
  "current_depth < max_depth \<Longrightarrow> load env url = Inl e \<Longrightarrow>
     extract_segment_urls env url max_depth current_depth = Inl (ExternalError e)"
  by (simp add: extract_segment_urls.simps [of env url])


lemmas demo_defs = demo_env_def demo_master_def demo_media_def demo_is_url_def
  playlist_base_def rsplit_head_def set_base_uri_def py_max_def

lemma demo_resolves:
  "extract_segment_urls demo_env ''http://h/v/master.m3u8'' 5 0
     = Inr [''http://h/v/a.ts'', ''http://other.example/b.ts'']"
  by (simp add: extract_segment_urls.simps demo_defs)

text \<open>
  \<^bold>\<open>Claim C1\<close>, as the code has it. The resolver tests the depth on entry, before it
  fetches anything: \<^verbatim>\<open>_extract_segment_urls\<close> raises \<^verbatim>\<open>RecursionError\<close> exactly when
  \<open>max_depth - current_depth\<close> playlists in a row, counted from the one at the given URL,
  load as master playlists with at least one variant (none at all when the difference
  is zero or negative). Whatever stands at depth \<open>max_depth\<close> is never fetched.
\<close>

theorem recursion_error_iff_variant_chain:
  "extract_segment_urls env url max_depth current_depth = Inl RecursionError \<longleftrightarrow>
     variant_chain env url (nat (max_depth - current_depth))"
proof (induction env url max_depth current_depth rule: extract_segment_urls.induct)
  case (1 env url max_depth current_depth)
  show ?case
  proof (cases "current_depth \<ge> max_depth")
    case True
    then show ?thesis by (simp add: extract_segment_urls.simps [of env url])
  next
    case False
    then obtain n where n: "nat (max_depth - current_depth) = Suc n"
      and n': "nat (max_depth - (current_depth + 1)) = n"
      by (cases "nat (max_depth - current_depth)") auto
    show ?thesis
    proof (cases "load env url")
      case (Inl e)
      with False n show ?thesis by (simp add: extract_segment_urls.simps [of env url])
    next
      case (Inr pl)
      show ?thesis
      proof (cases "is_variant pl")
        case nv: False
        with False Inr n show ?thesis
          by (simp add: extract_segment_urls.simps [of env url] set_base_uri_def collect_not_recursion)
      next
        case v: True
        show ?thesis
        proof (cases "playlists pl")
          case Nil
          with False Inr n v show ?thesis
            by (simp add: extract_segment_urls.simps [of env url] set_base_uri_def py_max_def)
        next
          case (Cons x xs)
          have "extract_segment_urls env
                 (urljoin env (playlist_base url) (variant_uri (max_from bandwidth x xs)))
                 max_depth (current_depth + 1) = Inl RecursionError \<longleftrightarrow>
               variant_chain env
                 (urljoin env (playlist_base url) (variant_uri (max_from bandwidth x xs))) n"
            using "1.IH" [of pl "set_base_uri (playlist_base url) pl" "max_from bandwidth x xs"]
              False Inr v Cons n'
            by (simp add: set_base_uri_def py_max_def)
          with False Inr v Cons n show ?thesis
            using extract_master [of current_depth max_depth env url pl x xs] by simp
        qed
      qed
    qed
  qed
qed


theorem recursion_error_iff_variant_chain_witness:
  "variant_chain demo_env ''http://h/v/master.m3u8'' (nat (1 - 0))
   \<and> extract_segment_urls demo_env ''http://h/v/master.m3u8'' 1 0 = Inl RecursionError
   \<and> \<not> variant_chain demo_env ''http://h/v/master.m3u8'' (nat (5 - 0))
   \<and> extract_segment_urls demo_env ''http://h/v/master.m3u8'' 5 0 \<noteq> Inl RecursionError"
proof -
  have c1: "variant_chain demo_env ''http://h/v/master.m3u8'' (Suc 0)"
    by (simp add: demo_defs)
  have c5: "\<not> variant_chain demo_env ''http://h/v/master.m3u8'' (Suc (Suc (Suc (Suc (Suc 0)))))"
    by (simp add: demo_defs)
  have n: "nat (1 - 0) = Suc 0" "nat (5 - 0) = Suc (Suc (Suc (Suc (Suc 0))))"
    by simp_all
  show ?thesis
    using c1 c5
      recursion_error_iff_variant_chain [of demo_env "''http://h/v/master.m3u8''" 1 0]
      recursion_error_iff_variant_chain [of demo_env "''http://h/v/master.m3u8''" 5 0]
    unfolding n by simp
qed

text \<open>
  Claim C1 as the specification states it fails: with \<open>max_depth = 1\<close> the node at depth 1
  of the chain master, media is a media playlist, and yet the call that enters at depth
  1 raises \<^verbatim>\<open>RecursionError\<close>, and so does the whole resolution from depth 0.
\<close>

theorem media_at_max_depth_counterexample:
  "load demo_env ''http://h/v/hi.m3u8'' = Inr demo_media
   \<and> \<not> is_variant demo_media
   \<and> extract_segment_urls demo_env ''http://h/v/hi.m3u8'' 1 1 = Inl RecursionError
   \<and> extract_segment_urls demo_env ''http://h/v/master.m3u8'' 1 0 = Inl RecursionError"
  by (simp add: extract_segment_urls.simps demo_defs)

text \<open>
  \<^bold>\<open>Claim C4\<close>. For a master playlist with at least one variant, read at a depth below
  \<open>max_depth\<close>: the variant \<^verbatim>\<open>max\<close> selects has a bandwidth strictly above that of every
  variant before it in the document and at least that of every variant after it, so it
  is the first of those with the greatest bandwidth. And this variant is the one the
  resolver follows: what the resolver returns is what the playlist at that variant's
  URI, joined to the base URI, gives one level deeper. That is \<^verbatim>\<open>RecursionError\<close> when
  that level is \<open>max_depth\<close>, the failure of \<^verbatim>\<open>m3u8.load\<close> when that playlist cannot be
  loaded, and, when that playlist is a media playlist, exactly the list of its segment
  URLs.
\<close>

theorem selects_first_variant_of_maximum_bandwidth:
  assumes "current_depth < max_depth" and "load env url = Inr pl" and "is_variant pl"
    and "playlists pl \<noteq> []"
  shows "\<exists>pre sel post.
           playlists pl = pre @ sel # post
         \<and> (\<forall>v\<in>set pre. bandwidth v < bandwidth sel)
         \<and> (\<forall>v\<in>set post. bandwidth v \<le> bandwidth sel)
         \<and> py_max bandwidth (playlists pl) = Inr sel
         \<and> extract_segment_urls env url max_depth current_depth =
             extract_segment_urls env (urljoin env (playlist_base url) (variant_uri sel))
               max_depth (current_depth + 1)
         \<and> (max_depth \<le> current_depth + 1 \<longrightarrow>
              extract_segment_urls env url max_depth current_depth = Inl RecursionError)
         \<and> (\<forall>e. current_depth + 1 < max_depth
                \<and> load env (urljoin env (playlist_base url) (variant_uri sel)) = Inl e \<longrightarrow>
              extract_segment_urls env url max_depth current_depth = Inl (ExternalError e))
         \<and> (\<forall>media rs. current_depth + 1 < max_depth
                \<and> load env (urljoin env (playlist_base url) (variant_uri sel)) = Inr media
                \<and> \<not> is_variant media \<longrightarrow>
              (extract_segment_urls env url max_depth current_depth = Inr rs \<longleftrightarrow>
                 list_all2
                   (\<lambda>s y. absolute_uri env
                      (playlist_base (urljoin env (playlist_base url) (variant_uri sel)))
                      (seg_uri s) = Inr y)
                   (segments media) rs))"
proof -
  from assms(4) obtain v vs where vs: "playlists pl = v # vs" by (cases "playlists pl") auto
  define sel where "sel = max_from bandwidth v vs"
  define nxt where "nxt = urljoin env (playlist_base url) (variant_uri sel)"
  from max_from_first [of v vs bandwidth] obtain pre post where
    a: "playlists pl = pre @ sel # post" and b: "\<forall>x\<in>set pre. bandwidth x < bandwidth sel"
    and c: "\<forall>x\<in>set post. bandwidth x \<le> bandwidth sel"
    unfolding sel_def vs by blast
  have d: "py_max bandwidth (playlists pl) = Inr sel"
    by (simp add: py_max_def vs sel_def)
  have e: "extract_segment_urls env url max_depth current_depth =
      extract_segment_urls env nxt max_depth (current_depth + 1)"
    unfolding nxt_def sel_def by (rule extract_master [OF assms(1-3) vs])
  have f: "max_depth \<le> current_depth + 1 \<longrightarrow>
      extract_segment_urls env url max_depth current_depth = Inl RecursionError"
    unfolding e by (simp add: extract_too_deep)
  have g: "\<forall>e. current_depth + 1 < max_depth \<and> load env nxt = Inl e \<longrightarrow>
      extract_segment_urls env url max_depth current_depth = Inl (ExternalError e)"
    unfolding e by (simp add: extract_load_failed)
  have h: "\<forall>media rs. current_depth + 1 < max_depth \<and> load env nxt = Inr media
        \<and> \<not> is_variant media \<longrightarrow>
      (extract_segment_urls env url max_depth current_depth = Inr rs \<longleftrightarrow>
         list_all2 (\<lambda>s y. absolute_uri env (playlist_base nxt) (seg_uri s) = Inr y)
           (segments media) rs)"
    unfolding e using extract_media [of "current_depth + 1" max_depth env nxt] by blast
  from a b c d e f g h show ?thesis unfolding nxt_def by blast
qed

theorem selects_first_variant_of_maximum_bandwidth_witness:
  "py_max bandwidth (playlists demo_master) = Inr \<lparr>variant_uri = ''hi.m3u8'', bandwidth = 1200000\<rparr>
   \<and> load demo_env ''http://h/v/hi.m3u8'' = Inr demo_media
   \<and> load demo_env ''http://h/v/alt.m3u8'' = Inl ''HTTPError''
   \<and> extract_segment_urls demo_env ''http://h/v/master.m3u8'' 5 0
       = Inr [''http://h/v/a.ts'', ''http://other.example/b.ts'']
   \<and> extract_segment_urls demo_env ''http://h/v/master.m3u8'' 1 0 = Inl RecursionError"
proof -
  have h: "(0::int) < 5" "load demo_env ''http://h/v/master.m3u8'' = Inr demo_master"
    "is_variant demo_master" "playlists demo_master \<noteq> []"
    by (simp_all add: demo_defs)
  have h1: "(0::int) < 1" by simp
  let ?hi = "\<lparr>variant_uri = ''hi.m3u8'', bandwidth = 1200000\<rparr>"
  have pm: "py_max bandwidth (playlists demo_master) = Inr ?hi" by (simp add: demo_defs)
  have nx: "urljoin demo_env (playlist_base ''http://h/v/master.m3u8'') (variant_uri ?hi)
      = ''http://h/v/hi.m3u8''" by (simp add: demo_defs)
  have ld: "load demo_env ''http://h/v/hi.m3u8'' = Inr demo_media" "\<not> is_variant demo_media"
    "load demo_env ''http://h/v/alt.m3u8'' = Inl ''HTTPError''"
    by (simp_all add: demo_defs)
  have l2: "list_all2 (\<lambda>s y. absolute_uri demo_env (playlist_base ''http://h/v/hi.m3u8'') (seg_uri s) = Inr y)
      (segments demo_media) [''http://h/v/a.ts'', ''http://other.example/b.ts'']"
    by (simp add: demo_defs)
  from selects_first_variant_of_maximum_bandwidth [OF h] obtain pre sel post where
    s: "py_max bandwidth (playlists demo_master) = Inr sel"
    and m: "\<forall>media rs. (0::int) + 1 < 5
                \<and> load demo_env (urljoin demo_env (playlist_base ''http://h/v/master.m3u8'') (variant_uri sel)) = Inr media
                \<and> \<not> is_variant media \<longrightarrow>
              (extract_segment_urls demo_env ''http://h/v/master.m3u8'' 5 0 = Inr rs \<longleftrightarrow>
                 list_all2
                   (\<lambda>s y. absolute_uri demo_env
                      (playlist_base (urljoin demo_env (playlist_base ''http://h/v/master.m3u8'') (variant_uri sel)))
                      (seg_uri s) = Inr y)
                   (segments media) rs)"
    by blast
  from s pm have sel: "sel = ?hi" by simp
  have r5: "extract_segment_urls demo_env ''http://h/v/master.m3u8'' 5 0
       = Inr [''http://h/v/a.ts'', ''http://other.example/b.ts'']"
    using m [unfolded sel nx] ld l2 by simp
  from selects_first_variant_of_maximum_bandwidth [OF h1 h(2-4)] have
    r1: "extract_segment_urls demo_env ''http://h/v/master.m3u8'' 1 0 = Inl RecursionError"
    by auto
  from pm ld r5 r1 show ?thesis by blast
qed

text \<open>
  \<^bold>\<open>Claim C8\<close>. For a media playlist read at a depth below \<open>max_depth\<close>, the resolver
  returns a list exactly when the \<^verbatim>\<open>absolute_uri\<close> of every segment can be had, and the
  list then has one entry for each segment, in the order of the document: entry \<open>i\<close> is
  the \<^verbatim>\<open>absolute_uri\<close> of segment \<open>i\<close> taken against the base URI of the playlist. Under
  the contract of the \<^verbatim>\<open>m3u8\<close> package that a URI that is already absolute is its own
  \<^verbatim>\<open>absolute_uri\<close>, such a segment URI is returned unchanged.
\<close>

theorem media_playlist_segment_urls:
  assumes "current_depth < max_depth" and "load env url = Inr pl" and "\<not> is_variant pl"
    and "\<forall>b u. is_url env u \<longrightarrow> absolute_uri env b u = Inr u"
  shows "(extract_segment_urls env url max_depth current_depth = Inr rs \<longleftrightarrow>
            length rs = length (segments pl)
          \<and> (\<forall>i<length (segments pl).
                absolute_uri env (playlist_base url) (seg_uri (segments pl ! i)) = Inr (rs ! i)))
       \<and> (extract_segment_urls env url max_depth current_depth = Inr rs \<longrightarrow>
            (\<forall>i<length (segments pl).
                is_url env (seg_uri (segments pl ! i)) \<longrightarrow> rs ! i = seg_uri (segments pl ! i)))"
proof -
  have iff: "extract_segment_urls env url max_depth current_depth = Inr rs \<longleftrightarrow>
            length rs = length (segments pl)
          \<and> (\<forall>i<length (segments pl).
                absolute_uri env (playlist_base url) (seg_uri (segments pl ! i)) = Inr (rs ! i))"
    unfolding extract_media [OF assms(1-3)] list_all2_conv_all_nth by auto
  moreover have "rs ! i = seg_uri (segments pl ! i)"
    if "extract_segment_urls env url max_depth current_depth = Inr rs"
      "i < length (segments pl)" "is_url env (seg_uri (segments pl ! i))" for i
  proof -
    from that(1,2) iff have
      "absolute_uri env (playlist_base url) (seg_uri (segments pl ! i)) = Inr (rs ! i)" by blast
    moreover from that(3) assms(4) have
      "absolute_uri env (playlist_base url) (seg_uri (segments pl ! i)) = Inr (seg_uri (segments pl ! i))"
      by blast
    ultimately show ?thesis by simp
  qed
  ultimately show ?thesis by blast
qed

theorem media_playlist_segment_urls_witness:
  "extract_segment_urls demo_env ''http://h/v/hi.m3u8'' 5 0
     = Inr [''http://h/v/a.ts'', ''http://other.example/b.ts'']
   \<and> length (segments demo_media) = 2
   \<and> is_url demo_env (seg_uri (segments demo_media ! 1))
   \<and> \<not> is_url demo_env (seg_uri (segments demo_media ! 0))"
proof -
  have h: "(0::int) < 5" "load demo_env ''http://h/v/hi.m3u8'' = Inr demo_media"
    "\<not> is_variant demo_media"
    "\<forall>b u. is_url demo_env u \<longrightarrow> absolute_uri demo_env b u = Inr u"
    by (simp_all add: demo_defs)
  have "\<forall>i<length (segments demo_media).
          absolute_uri demo_env (playlist_base ''http://h/v/hi.m3u8'') (seg_uri (segments demo_media ! i))
            = Inr ([''http://h/v/a.ts'', ''http://other.example/b.ts''] ! i)"
    by (simp add: demo_defs less_Suc_eq)
  moreover have "length [''http://h/v/a.ts'', ''http://other.example/b.ts''] = length (segments demo_media)"
    by (simp add: demo_defs)
  ultimately have "extract_segment_urls demo_env ''http://h/v/hi.m3u8'' 5 0
     = Inr [''http://h/v/a.ts'', ''http://other.example/b.ts'']"
    using media_playlist_segment_urls [OF h, of "[''http://h/v/a.ts'', ''http://other.example/b.ts'']"]
    by blast
  then show ?thesis by (simp add: demo_defs)
qed



section \<open>The download map\<close>

subsection \<open>Digits\<close>

lemma digit_char_less: "a < 10 \<Longrightarrow> b < 10 \<Longrightarrow> digit_char a < digit_char b \<longleftrightarrow> a < b"
  by (simp add: digit_char_def less_char_def)

lemma of_char_digit_char: "d < 10 \<Longrightarrow> of_char (digit_char d) = 48 + d"
  by (simp add: digit_char_def)

lemma same_prefix_less: "p @ x < p @ (y::string) \<longleftrightarrow> x < y"
  by (induction p) simp_all

lemma digits_value_snoc: "digits_value (s @ [c]) = 10 * digits_value s + (of_char c - 48)"
  by (simp add: digits_value_def)

lemma digits_value_decimal: "digits_value (decimal n) = n"
proof (induction n rule: decimal.induct)
  case (1 n)
  show ?case
  proof (cases "n < 10")
    case True
    then show ?thesis
      by (simp add: decimal.simps [of n] digits_value_def of_char_digit_char)
  next
    case False
    then have "digits_value (decimal n) = 10 * (n div 10) + (of_char (digit_char (n mod 10)) - 48)"
      using "1.IH" by (simp add: decimal.simps [of n] digits_value_snoc)
    then show ?thesis by (simp add: of_char_digit_char)
  qed
qed

lemma digits_value_zeros: "digits_value (replicate k CHR ''0'' @ s) = digits_value s"
  by (induction k) (simp_all add: digits_value_def)

lemma digits_value_format: "digits_value (format_04d n) = n"
  by (simp add: format_04d_def digits_value_zeros digits_value_decimal)

lemma format_04d_inj: "format_04d i = format_04d j \<Longrightarrow> i = j"
  by (metis digits_value_format)

lemma decimal_inj: "decimal i = decimal j \<Longrightarrow> i = j"
  by (metis digits_value_decimal)

lemma decimal_1: "n < 10 \<Longrightarrow> decimal n = [digit_char n]"
  by (simp add: decimal.simps [of n])

lemma decimal_2: "10 \<le> n \<Longrightarrow> n < 100 \<Longrightarrow> decimal n = [digit_char (n div 10), digit_char (n mod 10)]"
  by (simp add: decimal.simps [of n] decimal_1)

lemma decimal_3: "100 \<le> n \<Longrightarrow> n < 1000 \<Longrightarrow>
    decimal n = [digit_char (n div 100), digit_char (n div 10 mod 10), digit_char (n mod 10)]"
  by (simp add: decimal.simps [of n] decimal_2 div_mult2_eq [symmetric] less_mult_imp_div_less)

lemma decimal_4: "1000 \<le> n \<Longrightarrow> n < 10000 \<Longrightarrow>
    decimal n = [digit_char (n div 1000), digit_char (n div 100 mod 10),
                 digit_char (n div 10 mod 10), digit_char (n mod 10)]"
  by (simp add: decimal.simps [of n] decimal_3 div_mult2_eq [symmetric] less_mult_imp_div_less)

lemma digit_char_0: "digit_char 0 = CHR ''0''"
  by code_simp

lemma four_digits:
  fixes n :: nat
  shows "n = 1000 * (n div 1000) + 100 * (n div 100 mod 10) + 10 * (n div 10 mod 10) + n mod 10"
proof -
  define q1 r0 where "q1 = n div 10" and "r0 = n mod 10"
  define q2 r1 where "q2 = q1 div 10" and "r1 = q1 mod 10"
  define q3 r2 where "q3 = q2 div 10" and "r2 = q2 mod 10"
  have e0: "n = 10 * q1 + r0" by (simp add: q1_def r0_def)
  have e1: "q1 = 10 * q2 + r1" by (simp add: q2_def r1_def)
  have e2: "q2 = 10 * q3 + r2" by (simp add: q3_def r2_def)
  have h: "n div 100 = q2" "n div 1000 = q3"
    by (simp_all add: q1_def q2_def q3_def div_mult2_eq [symmetric])
  have "n = 1000 * q3 + 100 * r2 + 10 * r1 + r0"
    using e0 e1 e2 by simp
  then show ?thesis
    unfolding h unfolding r2_def r1_def r0_def q2_def q1_def h .
qed

lemma lex4:
  fixes a b c d a' b' c' d' :: nat
  assumes "1000 * a + 100 * b + 10 * c + d < 1000 * a' + 100 * b' + 10 * c' + d'"
    and "b < 10" "c < 10" "d < 10" "b' < 10" "c' < 10" "d' < 10"
  shows "a < a' \<or> a = a' \<and> (b < b' \<or> b = b' \<and> (c < c' \<or> c = c' \<and> d < d'))"
  using assms by arith

lemma digits_lex_order:
  fixes i j :: nat
  assumes "i < j"
  shows "i div 1000 < j div 1000
      \<or> i div 1000 = j div 1000 \<and> (i div 100 mod 10 < j div 100 mod 10
      \<or> i div 100 mod 10 = j div 100 mod 10 \<and> (i div 10 mod 10 < j div 10 mod 10
      \<or> i div 10 mod 10 = j div 10 mod 10 \<and> i mod 10 < j mod 10))"
proof (rule lex4)
  show "1000 * (i div 1000) + 100 * (i div 100 mod 10) + 10 * (i div 10 mod 10) + i mod 10
      < 1000 * (j div 1000) + 100 * (j div 100 mod 10) + 10 * (j div 10 mod 10) + j mod 10"
    using assms four_digits [of i] four_digits [of j] by simp
qed simp_all

lemma format_04d_small:
  assumes "n < 10000"
  shows "format_04d n = [digit_char (n div 1000), digit_char (n div 100 mod 10),
                         digit_char (n div 10 mod 10), digit_char (n mod 10)]"
proof -
  have r: "replicate 3 c = [c, c, c]" "replicate 2 c = [c, c]" "replicate 1 c = [c]" for c :: char
    by (simp_all add: numeral_3_eq_3 numeral_2_eq_2)
  consider "n < 10" | "10 \<le> n" "n < 100" | "100 \<le> n" "n < 1000" | "1000 \<le> n" "n < 10000"
    using assms by linarith
  then show ?thesis
  proof cases
    case 1
    then show ?thesis by (simp add: format_04d_def decimal_1 digit_char_0 r)
  next
    case 2
    then show ?thesis by (simp add: format_04d_def decimal_2 digit_char_0 r)
  next
    case 3
    then show ?thesis by (simp add: format_04d_def decimal_3 digit_char_0 r)
  next
    case 4
    then show ?thesis by (simp add: format_04d_def decimal_4)
  qed
qed

lemma format_04d_mono:
  assumes "i < j" "j < 10000"
  shows "format_04d i < format_04d j"
proof -
  have i: "i < 10000" using assms by simp
  have d: "\<And>a b. a < 10 \<Longrightarrow> b < 10 \<Longrightarrow> digit_char a = digit_char b \<longleftrightarrow> a = b"
    by (metis digit_char_less less_irrefl linorder_neqE_nat)
  have b: "i div 1000 < 10" "j div 1000 < 10" using i assms by simp_all
  from digits_lex_order [OF assms(1)] show ?thesis
    using b by (simp add: format_04d_small i assms(2) digit_char_less d)
qed


lemma segment_path_prefix:
  "\<exists>p. \<forall>idx. segment_path segments_dir idx = p @ ''segment_'' @ format_04d idx @ ''.ts''"
proof (cases "segments_dir = [] \<or> last segments_dir = CHR ''/''")
  case True
  then have "\<forall>idx. segment_path segments_dir idx = segments_dir @ ''segment_'' @ format_04d idx @ ''.ts''"
    by (simp add: segment_path_def path_join_def)
  then show ?thesis by blast
next
  case False
  then have "\<forall>idx. segment_path segments_dir idx
      = (segments_dir @ ''/'') @ ''segment_'' @ format_04d idx @ ''.ts''"
    by (simp add: segment_path_def path_join_def)
  then show ?thesis by blast
qed

lemma segment_path_inj: "segment_path d i = segment_path d j \<Longrightarrow> i = j"
proof -
  assume a: "segment_path d i = segment_path d j"
  obtain p where p: "\<And>idx. segment_path d idx = p @ ''segment_'' @ format_04d idx @ ''.ts''"
    using segment_path_prefix by blast
  from a have "format_04d i @ ''.ts'' = format_04d j @ ''.ts''"
    unfolding p by simp
  then have "format_04d i = format_04d j" by simp
  then show ?thesis by (rule format_04d_inj)
qed

lemma segment_path_mono:
  assumes "i < j" "j < 10000"
  shows "segment_path d i < segment_path d j"
proof -
  obtain p where p: "\<And>idx. segment_path d idx = p @ ''segment_'' @ format_04d idx @ ''.ts''"
    using segment_path_prefix by blast
  have i: "i < 10000" using assms by simp
  have "format_04d i < format_04d j" using assms by (rule format_04d_mono)
  then have "format_04d i @ ''.ts'' < format_04d j @ ''.ts''"
    by (auto simp add: format_04d_small i assms(2))
  then have "''segment_'' @ format_04d i @ ''.ts'' < ''segment_'' @ format_04d j @ ''.ts''"
    by simp
  then show ?thesis unfolding p by (simp only: same_prefix_less)
qed

lemma segment_path_overflow: "segment_path d 10000 < segment_path d 9999"
proof -
  obtain p where p: "\<And>idx. segment_path d idx = p @ ''segment_'' @ format_04d idx @ ''.ts''"
    using segment_path_prefix by blast
  have c: "digit_char 0 = CHR ''0''" "digit_char (Suc 0) = CHR ''1''" "digit_char 9 = CHR ''9''"
    by code_simp+
  have "decimal 10000 = ''10000''"
    by (simp add: decimal.simps [of 10000] decimal_4 c)
  then have a: "format_04d 10000 = ''10000''" by (simp add: format_04d_def)
  have b: "format_04d 9999 = ''9999''" by (simp add: format_04d_small c)
  have "''segment_'' @ format_04d 10000 @ ''.ts'' < ''segment_'' @ format_04d 9999 @ ''.ts''"
    unfolding a b by simp
  then show ?thesis unfolding p by (simp only: same_prefix_less)
qed

lemma dict_set_fresh: "k \<notin> fst ` set m \<Longrightarrow> dict_set k v m = m @ [(k, v)]"
  by (induction m) auto

lemma fold_dict_set:
  assumes "\<forall>k\<in>fst ` set acc. \<exists>i<n. k = segment_path d i"
  shows "fold (\<lambda>(idx, url) m. dict_set (segment_path d idx) url m) (enumerate n urls) acc
       = acc @ map (\<lambda>(idx, url). (segment_path d idx, url)) (enumerate n urls)"
  using assms
proof (induction urls arbitrary: n acc)
  case Nil
  then show ?case by simp
next
  case (Cons u urls)
  have fresh: "segment_path d n \<notin> fst ` set acc"
  proof
    assume "segment_path d n \<in> fst ` set acc"
    with Cons.prems obtain i where "i < n" "segment_path d n = segment_path d i" by blast
    then show False using segment_path_inj by blast
  qed
  have "\<forall>k\<in>fst ` set (acc @ [(segment_path d n, u)]). \<exists>i<Suc n. k = segment_path d i"
    using Cons.prems by (auto intro: less_SucI)
  from Cons.IH [OF this] fresh show ?case
    by (simp add: dict_set_fresh)
qed

lemma download_map_of_eq:
  "download_map_of d urls = map (\<lambda>(idx, url). (segment_path d idx, url)) (enumerate 0 urls)"
  unfolding download_map_of_def using fold_dict_set [of "[]" 0 d urls] by simp

lemma download_map_length: "length (download_map_of d urls) = length urls"
  by (simp add: download_map_of_eq)

lemma download_map_nth:
  "i < length urls \<Longrightarrow> download_map_of d urls ! i = (segment_path d i, urls ! i)"
  by (simp add: download_map_of_eq nth_enumerate_eq)

lemma download_map_urls: "map snd (download_map_of d urls) = urls"
proof -
  have "map snd (download_map_of d urls) = map snd (enumerate 0 urls)"
    by (simp add: download_map_of_eq case_prod_beta comp_def)
  then show ?thesis by simp
qed

lemma download_map_paths:
  "map fst (download_map_of d urls) = map (segment_path d) [0..<length urls]"
proof -
  have "map fst (download_map_of d urls) = map (\<lambda>x. segment_path d (fst x)) (enumerate 0 urls)"
    by (simp add: download_map_of_eq case_prod_beta comp_def)
  also have "\<dots> = map (segment_path d) (map fst (enumerate 0 urls))"
    by (simp only: map_map comp_def)
  also have "\<dots> = map (segment_path d) [0..<length urls]"
    by (simp only: map_fst_enumerate) simp
  finally show ?thesis .
qed

lemma plan_sorted:
  assumes "length urls \<le> 10000"
  shows "sorted_wrt (<) (map fst (download_map_of d urls))"
proof -
  have "map (segment_path d) [0..<length urls] ! i < map (segment_path d) [0..<length urls] ! j"
    if "i < j" "j < length urls" for i j
  proof -
    from that assms have "j < 10000" by linarith
    with that show ?thesis by (simp add: segment_path_mono)
  qed
  then show ?thesis
    unfolding download_map_paths sorted_wrt_iff_nth_less by simp
qed

lemma plan_not_sorted:
  assumes "length urls > 10000"
  shows "\<not> sorted (map fst (download_map_of d urls))"
proof
  assume "sorted (map fst (download_map_of d urls))"
  then have "map fst (download_map_of d urls) ! 9999 \<le> map fst (download_map_of d urls) ! 10000"
    using assms by (intro sorted_nth_mono) (simp_all add: download_map_length)
  then have "segment_path d 9999 \<le> segment_path d 10000"
    using assms by (simp add: download_map_paths)
  with segment_path_overflow [of d] show False by simp
qed


lemma many_urls_distinct: "distinct many_urls"
proof -
  have "inj_on (\<lambda>i. ''http://h/v/seg'' @ decimal i @ ''.ts'') (set [0..<10001])"
    by (rule inj_onI) (auto dest: decimal_inj)
  then show ?thesis unfolding many_urls_def by (simp add: distinct_map)
qed

text \<open>
  \<^bold>\<open>Claim C2\<close>, as the code has it. The index is padded to four digits, so for up to
  10,000 segment URLs (none included) the destination paths, taken in the order of the
  input, increase strictly in the lexical order of strings: sorting the entries of the
  download map by path changes nothing and gives back the URLs in the order of the
  input, and entry \<open>i\<close> pairs the path of index \<open>i\<close> with the \<open>i\<close>-th URL.
\<close>

theorem download_map_paths_in_lexical_order:
  assumes "length segment_urls \<le> 10000"
  shows "sorted_wrt (<) (map fst (download_map_of segments_dir segment_urls))
       \<and> sort_key fst (download_map_of segments_dir segment_urls)
           = download_map_of segments_dir segment_urls
       \<and> map snd (sort_key fst (download_map_of segments_dir segment_urls)) = segment_urls
       \<and> map fst (download_map_of segments_dir segment_urls)
           = map (segment_path segments_dir) [0..<length segment_urls]"
proof -
  have s: "sorted_wrt (<) (map fst (download_map_of segments_dir segment_urls))"
    using assms by (rule plan_sorted)
  then have "sorted (map fst (download_map_of segments_dir segment_urls))"
    by (rule strict_sorted_imp_sorted)
  then have k: "sort_key fst (download_map_of segments_dir segment_urls)
      = download_map_of segments_dir segment_urls"
    by (rule sort_key_id_if_sorted)
  show ?thesis
    using s k download_map_urls [of segments_dir segment_urls]
      download_map_paths [of segments_dir segment_urls] by simp
qed

theorem download_map_paths_in_lexical_order_witness:
  "length [''http://h/v/a.ts'', ''http://other.example/b.ts''] \<le> 10000
   \<and> map snd (sort_key fst (download_map_of ''/tmp/w/ts_segments''
        [''http://h/v/a.ts'', ''http://other.example/b.ts'']))
      = [''http://h/v/a.ts'', ''http://other.example/b.ts'']
   \<and> map fst (download_map_of ''/tmp/w/ts_segments''
        [''http://h/v/a.ts'', ''http://other.example/b.ts''])
      = [''/tmp/w/ts_segments/segment_0000.ts'', ''/tmp/w/ts_segments/segment_0001.ts'']
   \<and> sort_key fst (download_map_of ''/tmp/w/ts_segments'' []) = []"
proof -
  have p: "map (segment_path ''/tmp/w/ts_segments'') [0..<length [''http://h/v/a.ts'', ''http://other.example/b.ts'']]
      = [''/tmp/w/ts_segments/segment_0000.ts'', ''/tmp/w/ts_segments/segment_0001.ts'']"
    by code_simp
  have e: "download_map_of ''/tmp/w/ts_segments'' [] = []"
    by (simp add: download_map_of_def)
  have l: "length [''http://h/v/a.ts'', ''http://other.example/b.ts''] \<le> 10000" by simp
  note t = download_map_paths_in_lexical_order [OF l, of "''/tmp/w/ts_segments''"]
  from t have "map snd (sort_key fst (download_map_of ''/tmp/w/ts_segments''
        [''http://h/v/a.ts'', ''http://other.example/b.ts'']))
      = [''http://h/v/a.ts'', ''http://other.example/b.ts'']" by blast
  moreover from t p have "map fst (download_map_of ''/tmp/w/ts_segments''
        [''http://h/v/a.ts'', ''http://other.example/b.ts''])
      = [''/tmp/w/ts_segments/segment_0000.ts'', ''/tmp/w/ts_segments/segment_0001.ts'']"
    by (simp only:)
  moreover have "sort_key fst (download_map_of ''/tmp/w/ts_segments'' []) = []"
    by (simp add: e)
  ultimately show ?thesis using l by blast
qed

text \<open>
  Claim C2 as stated, for any input length, fails at 10,001 URLs: index 10000 is
  written with five digits, its path sorts before the path of index 9999, and the URLs
  read off the entries sorted by path are not in the order of the input.
\<close>

theorem lexical_order_beyond_10000_counterexample:
  "length many_urls = 10001
   \<and> segment_path ''/tmp/w/ts_segments'' 10000 < segment_path ''/tmp/w/ts_segments'' 9999
   \<and> map snd (sort_key fst (download_map_of ''/tmp/w/ts_segments'' many_urls)) \<noteq> many_urls"
proof -
  let ?dm = "download_map_of ''/tmp/w/ts_segments'' many_urls"
  have len: "length many_urls = 10001" by (simp add: many_urls_def)
  have "map snd (sort_key fst ?dm) \<noteq> many_urls"
  proof
    assume a: "map snd (sort_key fst ?dm) = many_urls"
    have "distinct (map snd ?dm)" by (simp add: download_map_urls many_urls_distinct)
    then have "inj_on snd (set ?dm)" by (simp add: distinct_map)
    then have "inj_on snd (set (sort_key fst ?dm) \<union> set ?dm)" by simp
    moreover from a have "map snd (sort_key fst ?dm) = map snd ?dm"
      by (simp add: download_map_urls)
    ultimately have "sort_key fst ?dm = ?dm" by (simp add: inj_on_map_eq_map)
    moreover have "sorted (map fst (sort_key fst ?dm))" by (rule sorted_sort_key)
    ultimately have "sorted (map fst ?dm)" by simp
    moreover have "\<not> sorted (map fst ?dm)" by (rule plan_not_sorted) (simp add: len)
    ultimately show False by simp
  qed
  with len segment_path_overflow [of "''/tmp/w/ts_segments''"] show ?thesis by simp
qed

section \<open>The pipeline\<close>

subsection \<open>What the traced program logs\<close>

lemma traced_sel [simp]:
  "path_exists (traced os) p (w, tr) = path_exists os p w"
  "makedirs (traced os) p (w, tr) = (case makedirs os p w of (r, w') \<Rightarrow> (r, (w', tr @ [(Makedirs p, r = None)])))"
  "mkdtemp (traced os) p (w, tr) = (case mkdtemp os p w of (r, w') \<Rightarrow> (r, (w', tr @ [(Mkdtemp p, \<not> isl r)])))"
  "write_lines (traced os) p ls (w, tr) = (case write_lines os p ls w of (r, w') \<Rightarrow> (r, (w', tr @ [(WriteLines p ls, r = None)])))"
  "remove (traced os) p (w, tr) = (case remove os p w of (r, w') \<Rightarrow> (r, (w', tr @ [(Remove p, r = None)])))"
  "rmtree (traced os) p (w, tr) = (case rmtree os p w of (r, w') \<Rightarrow> (r, (w', tr @ [(Rmtree p, r = None)])))"
  "run (traced os) cmd (w, tr) = (case run os cmd w of (r, w') \<Rightarrow> (r, (w', tr @ [(Run cmd, r = Exited 0)])))"
  "download_files (traced os) m (w, tr) = (case download_files os m w of (r, w') \<Rightarrow> (r, (w', tr @ [(DownloadFiles m, r = None)])))"
  "abspath (traced os) = abspath os"
  by (simp_all add: traced_def)

lemma manifest_lines_traced [simp]: "manifest_lines (traced os) sf = manifest_lines os sf"
  by (simp add: manifest_lines_def)

lemma merge_try_trace:
  assumes "merge_and_convert_try (traced os) sf ts out (w, tr) = (b, (w', tr'))"
  shows "\<exists>evs. tr' = tr @ evs \<and> merge_trace os sf ts out b evs"
  using assms
  by (auto simp: merge_and_convert_try_def merge_trace_def Let_def
      split: prod.splits option.splits if_splits)

lemma merge_segments_trace:
  assumes "merge_and_convert_segments (traced os) sf ts out (w, tr) = (r, (w', tr'))"
  shows "\<exists>b mevs fin. tr' = tr @ mevs @ fin \<and> merge_trace os sf ts out b mevs
           \<and> manifest_removal ts b r fin"
proof -
  obtain b w1 tr1 where t: "merge_and_convert_try (traced os) sf ts out (w, tr) = (b, (w1, tr1))"
    by (metis surj_pair)
  from merge_try_trace [OF t] obtain mevs where
    m: "tr1 = tr @ mevs" "merge_trace os sf ts out b mevs" by blast
  from assms t have "\<exists>fin. tr' = tr1 @ fin \<and> manifest_removal ts b r fin"
    by (auto simp: merge_and_convert_segments_def manifest_removal_def Let_def
        split: prod.splits option.splits if_splits)
  with m show ?thesis by auto
qed

lemma run_stages_trace:
  assumes "run_stages env (traced os) url out t (w, tr) = (pending, (w', tr'))"
  shows "\<exists>evs. tr' = tr @ evs \<and> stages_trace env os url out t pending evs"
proof -
  let ?sd = "path_join t ''ts_segments''"
  let ?ts = "path_join t ''merged_video.ts''"
  show ?thesis
  proof (cases "makedirs os ?sd w")
    case (Pair r1 w1)
    show ?thesis
    proof (cases r1)
      case (Some e)
      with Pair assms show ?thesis
        by (auto simp: run_stages_def stages_trace_def Let_def)
    next
      case None
      note r1 = this
      obtain r2 w2 where m2: "makedirs os (dirname out) w1 = (r2, w2)" by (metis surj_pair)
      show ?thesis
      proof (cases "dirname out \<noteq> [] \<and> r2 \<noteq> None")
        case True
        with Pair r1 m2 assms show ?thesis
          by (auto simp: run_stages_def stages_trace_def Let_def)
      next
        case False
        define made where "made = (Makedirs ?sd, True) #
                 (if dirname out \<noteq> [] then [(Makedirs (dirname out), True)] else [])"
        define w2' where "w2' = (if dirname out \<noteq> [] then w2 else w1)"
        show ?thesis
        proof (cases "extract_segment_urls env url 5 0")
          case (Inl e)
          with False Pair r1 m2 assms show ?thesis
            by (auto simp: run_stages_def stages_trace_def Let_def)
        next
          case (Inr urls)
          let ?dm = "download_map_of ?sd urls"
          obtain r3 w3 where d: "download_files os ?dm w2' = (r3, w3)" by (metis surj_pair)
          show ?thesis
          proof (cases r3)
            case (Some e)
            with Inr d False Pair r1 m2 assms show ?thesis
              by (auto simp: run_stages_def stages_trace_def Let_def w2'_def; blast)
          next
            case None
            obtain r4 w4 tr4 where mg: "merge_and_convert_segments (traced os) (map fst ?dm) ?ts out
                (w3, tr @ made @ [(DownloadFiles ?dm, True)]) = (r4, (w4, tr4))"
              by (metis surj_pair)
            from merge_segments_trace [OF mg] obtain b mevs fin where
              s: "tr4 = (tr @ made @ [(DownloadFiles ?dm, True)]) @ mevs @ fin"
                 "merge_trace os (map fst ?dm) ?ts out b mevs" "manifest_removal ?ts b r4 fin"
              by blast
            have res: "tr' = tr4 \<and> (pending = None) = (r4 = Inr True)"
              using None Inr d False Pair r1 m2 assms mg
              by (auto simp: run_stages_def Let_def w2'_def made_def split: sum.splits if_splits)
            have "stages_trace env os url out t pending (made @ [(DownloadFiles ?dm, True)] @ mevs @ fin)"
              unfolding stages_trace_def Let_def made_def [symmetric]
              using s(2,3) res Inr by blast
            with s(1) res show ?thesis by auto
          qed
        qed
      qed
    qed
  qed
qed


lemma prepare_workspace_trace:
  assumes "prepare_workspace (traced os) cfg td (w, tr) = (prepared, (w', tr'))"
  shows "\<exists>evs. tr' = tr @ evs \<and> prepare_trace prepared evs"
  using assms
  by (auto simp: prepare_workspace_def config_or_temp_def make_temp_def prepare_trace_def
      split: prod.splits option.splits sum.splits if_splits)

lemma finally_cleanup_trace:
  assumes "finally_cleanup (traced os) c td pending (w1, tr1) = (r, (w', tr'))"
  shows "\<exists>evs. tr' = tr1 @ evs \<and> cleanup_trace os c td pending r w1 w' evs"
  using assms
  by (auto simp: finally_cleanup_def cleanup_trace_def
      split: prod.splits option.splits if_splits)

lemma download_video_trace:
  assumes "download_video env (traced os) cfg url out td ct (w, []) = (r, (w', tr))"
  shows "\<exists>prepared pending w1 pevs sevs fevs.
      tr = pevs @ sevs @ fevs
    \<and> prepare_trace prepared pevs
    \<and> local_temp_directory (traced os) cfg td (w, []) = (case prepared of Inl e \<Rightarrow> td | Inr t \<Rightarrow> Some t)
    \<and> (isl prepared \<longrightarrow> sevs = [] \<and> pending \<noteq> None)
    \<and> (\<forall>t. prepared = Inr t \<longrightarrow> stages_trace env os url out t pending sevs)
    \<and> cleanup_trace os (effective_cleanup cfg ct)
          (local_temp_directory (traced os) cfg td (w, [])) pending r w1 w' fevs"
proof -
  obtain prepared w0 tr0 where p: "prepare_workspace (traced os) cfg td (w, []) = (prepared, (w0, tr0))"
    by (metis surj_pair)
  from prepare_workspace_trace [OF p] have pt: "prepare_trace prepared tr0" by simp
  have loc: "local_temp_directory (traced os) cfg td (w, []) = (case prepared of Inl e \<Rightarrow> td | Inr t \<Rightarrow> Some t)"
    by (simp add: local_temp_directory_def p)
  obtain pending w1 tr1 where t: "download_video_try env (traced os) cfg url out td (w, []) = (pending, (w1, tr1))"
    by (metis surj_pair)
  have "\<exists>sevs. tr1 = tr0 @ sevs \<and> (isl prepared \<longrightarrow> sevs = [] \<and> pending \<noteq> None)
      \<and> (\<forall>t. prepared = Inr t \<longrightarrow> stages_trace env os url out t pending sevs)"
  proof (cases prepared)
    case (Inl e)
    with p t show ?thesis by (auto simp: download_video_try_def)
  next
    case (Inr d)
    with p t have "run_stages env (traced os) url out d (w0, tr0) = (pending, (w1, tr1))"
      by (simp add: download_video_try_def)
    from run_stages_trace [OF this] Inr show ?thesis by auto
  qed
  then obtain sevs where s: "tr1 = tr0 @ sevs" "isl prepared \<longrightarrow> sevs = [] \<and> pending \<noteq> None"
    "\<forall>t. prepared = Inr t \<longrightarrow> stages_trace env os url out t pending sevs" by blast
  from assms t have "finally_cleanup (traced os) (effective_cleanup cfg ct)
      (local_temp_directory (traced os) cfg td (w, [])) pending (w1, tr1) = (r, (w', tr))"
    by (simp add: download_video_def)
  from finally_cleanup_trace [OF this] obtain fevs where
    f: "tr = tr1 @ fevs" "cleanup_trace os (effective_cleanup cfg ct)
      (local_temp_directory (traced os) cfg td (w, [])) pending r w1 w' fevs" by blast
  from f(1) s(1) have "tr = tr0 @ sevs @ fevs" by simp
  with pt loc s(2,3) f(2) show ?thesis
    by (intro exI [of _ prepared] exI [of _ pending] exI [of _ w1] exI [of _ tr0]
        exI [of _ sevs] exI [of _ fevs] conjI)
qed


subsection \<open>The log changes nothing\<close>









subsection \<open>Facts about the stages\<close>

lemmas stage_shapes = stages_trace_def merge_trace_def manifest_removal_def Let_def

lemma stages_halt:
  assumes "stages_trace env os url out t pending sevs"
  shows "halts_on_failure sevs"
  using assms by (auto simp: stage_shapes split: if_splits)

lemma stages_failure_pending:
  assumes "stages_trace env os url out t pending sevs" and "(c, False) \<in> set sevs"
    and "\<not> is_removal c"
  shows "pending \<noteq> None"
  using assms by (auto simp: stage_shapes split: if_splits)


lemma stages_unresolved:
  assumes "stages_trace env os url out t pending sevs"
    and "isl (extract_segment_urls env url 5 0)"
  shows "pending \<noteq> None \<and> (\<forall>e\<in>set sevs. \<exists>p. fst e = Makedirs p)"
  using assms by (auto simp: stage_shapes split: if_splits)





lemma halts_removals: "list_all (\<lambda>e. is_removal (fst e)) ys \<Longrightarrow> halts_on_failure ys"
  by (induction ys) auto

lemma halts_append_removals:
  "list_all (\<lambda>e. is_removal (fst e)) ys \<Longrightarrow> halts_on_failure (xs @ ys) = halts_on_failure xs"
proof (induction xs)
  case Nil
  then show ?case by (simp add: halts_removals)
next
  case (Cons e xs)
  then show ?case by (cases e) simp
qed

lemma halts_ok_prefix:
  "\<forall>e\<in>set xs. snd e \<Longrightarrow> halts_on_failure (xs @ ys) = halts_on_failure ys"
  by (induction xs) auto

lemma cleanup_removals:
  assumes "cleanup_trace os c td pending r w1 w' fevs"
  shows "list_all (\<lambda>e. is_removal (fst e)) fevs"
  using assms by (auto simp: cleanup_trace_def split: if_splits option.splits)

lemma cleanup_result:
  assumes "cleanup_trace os c td pending r w1 w' fevs" and "pending \<noteq> None"
  shows "r \<noteq> None"
  using assms by (auto simp: cleanup_trace_def split: if_splits option.splits)


lemma cleanup_calls:
  assumes "cleanup_trace os c td pending r w1 w' fevs" and "e \<in> set fevs"
  shows "c \<and> (\<exists>t. td = Some t \<and> fst e = Rmtree t)"
  using assms by (auto simp: cleanup_trace_def split: if_splits option.splits)

lemma cleanup_last:
  assumes "cleanup_trace os True (Some t) pending r w1 w' fevs"
  shows "\<not> path_exists os t w' \<and> fevs = [] \<or> (\<exists>ok. fevs = [(Rmtree t, ok)])"
  using assms by (auto simp: cleanup_trace_def split: if_splits)


lemma prepare_failed:
  assumes "prepare_trace prepared pevs" and "isl prepared"
  shows "\<exists>c. \<not> is_removal c \<and> pevs = [(c, False)]"
  using assms by (auto simp: prepare_trace_def)

lemma prepare_done:
  assumes "prepare_trace prepared pevs" and "\<not> isl prepared"
  shows "(\<forall>e\<in>set pevs. snd e) \<and> (\<forall>e\<in>set pevs. (\<exists>p. fst e = Makedirs p) \<or> (\<exists>p. fst e = Mkdtemp p))"
  using assms by (auto simp: prepare_trace_def)

lemma prepare_calls:
  assumes "prepare_trace prepared pevs" and "e \<in> set pevs"
  shows "(\<exists>p. fst e = Makedirs p) \<or> (\<exists>p. fst e = Mkdtemp p)"
  using assms by (auto simp: prepare_trace_def)

lemma stages_fetch_failed:
  assumes "stages_trace env os url out t pending sevs" and "(DownloadFiles m, False) \<in> set sevs"
  shows "pending \<noteq> None \<and> (\<forall>e\<in>set sevs. (\<exists>p. fst e = Makedirs p) \<or> (\<exists>m. fst e = DownloadFiles m))"
  using assms by (auto simp: stage_shapes split: if_splits)


subsection \<open>Facts about a whole run\<close>

lemma run_halts:
  assumes "download_video env (traced os) cfg url out td ct (w, []) = (r, (w', tr))"
  shows "halts_on_failure tr"
proof -
  from download_video_trace [OF assms(1)] obtain prepared pending w1 pevs sevs fevs where
    tr: "tr = pevs @ sevs @ fevs" and p: "prepare_trace prepared pevs"
    and l: "local_temp_directory (traced os) cfg td (w, []) = (case prepared of Inl e \<Rightarrow> td | Inr t \<Rightarrow> Some t)"
    and f: "isl prepared \<longrightarrow> sevs = [] \<and> pending \<noteq> None"
    and s: "\<forall>t. prepared = Inr t \<longrightarrow> stages_trace env os url out t pending sevs"
    and c: "cleanup_trace os (effective_cleanup cfg ct)
       (local_temp_directory (traced os) cfg td (w, [])) pending r w1 w' fevs"
    by (elim exE conjE) (rule that)
  have "halts_on_failure (pevs @ sevs)"
  proof (cases prepared)
    case (Inl e)
    with f have "sevs = []" by simp
    moreover from prepare_failed [OF p] Inl obtain c where "pevs = [(c, False)]" by auto
    ultimately show ?thesis by simp
  next
    case (Inr t)
    with prepare_done [OF p] have "\<forall>e\<in>set pevs. snd e" by simp
    moreover from s Inr have "stages_trace env os url out t pending sevs" by simp
    ultimately show ?thesis by (simp add: halts_ok_prefix stages_halt)
  qed
  then have "halts_on_failure ((pevs @ sevs) @ fevs)"
    by (simp only: halts_append_removals [OF cleanup_removals [OF c]])
  then show ?thesis by (simp add: tr)
qed

lemma run_failure:
  assumes "download_video env (traced os) cfg url out td ct (w, []) = (r, (w', tr))"
    and "(c, False) \<in> set tr" and "\<not> is_removal c"
  shows "r \<noteq> None"
proof -
  from download_video_trace [OF assms(1)] obtain prepared pending w1 pevs sevs fevs where
    tr: "tr = pevs @ sevs @ fevs" and p: "prepare_trace prepared pevs"
    and l: "local_temp_directory (traced os) cfg td (w, []) = (case prepared of Inl e \<Rightarrow> td | Inr t \<Rightarrow> Some t)"
    and f: "isl prepared \<longrightarrow> sevs = [] \<and> pending \<noteq> None"
    and s: "\<forall>t. prepared = Inr t \<longrightarrow> stages_trace env os url out t pending sevs"
    and c: "cleanup_trace os (effective_cleanup cfg ct)
       (local_temp_directory (traced os) cfg td (w, [])) pending r w1 w' fevs"
    by (elim exE conjE) (rule that)
  have "pending \<noteq> None"
  proof (cases prepared)
    case (Inl e)
    with f show ?thesis by simp
  next
    case (Inr t)
    with prepare_done [OF p] have "\<forall>e\<in>set pevs. snd e" by simp
    then have "(c, False) \<notin> set pevs" by fastforce
    moreover have "(c, False) \<notin> set fevs"
    proof
      assume "(c, False) \<in> set fevs"
      from cleanup_calls [OF c this] assms(3) show False by auto
    qed
    ultimately have in_s: "(c, False) \<in> set sevs" using assms(2) tr by simp
    from s Inr have "stages_trace env os url out t pending sevs" by simp
    from stages_failure_pending [OF this in_s assms(3)] show ?thesis .
  qed
  with cleanup_result [OF c] show ?thesis .
qed

lemma run_unresolved:
  assumes "download_video env (traced os) cfg url out td ct (w, []) = (r, (w', tr))"
    and "isl (extract_segment_urls env url 5 0)"
  shows "r \<noteq> None \<and> (\<forall>e\<in>set tr. (\<exists>p. fst e = Makedirs p) \<or> (\<exists>p. fst e = Mkdtemp p)
            \<or> (\<exists>p. fst e = Rmtree p))"
proof -
  from download_video_trace [OF assms(1)] obtain prepared pending w1 pevs sevs fevs where
    tr: "tr = pevs @ sevs @ fevs" and p: "prepare_trace prepared pevs"
    and l: "local_temp_directory (traced os) cfg td (w, []) = (case prepared of Inl e \<Rightarrow> td | Inr t \<Rightarrow> Some t)"
    and f: "isl prepared \<longrightarrow> sevs = [] \<and> pending \<noteq> None"
    and s: "\<forall>t. prepared = Inr t \<longrightarrow> stages_trace env os url out t pending sevs"
    and c: "cleanup_trace os (effective_cleanup cfg ct)
       (local_temp_directory (traced os) cfg td (w, [])) pending r w1 w' fevs"
    by (elim exE conjE) (rule that)
  have ps: "pending \<noteq> None \<and> (\<forall>e\<in>set sevs. \<exists>p. fst e = Makedirs p)"
  proof (cases prepared)
    case (Inl e)
    with f show ?thesis by simp
  next
    case (Inr t)
    with s have "stages_trace env os url out t pending sevs" by simp
    from stages_unresolved [OF this assms(2)] show ?thesis .
  qed
  have pe: "\<forall>e\<in>set pevs. (\<exists>p. fst e = Makedirs p) \<or> (\<exists>p. fst e = Mkdtemp p)"
    using prepare_calls [OF p] by blast
  have fe: "\<forall>e\<in>set fevs. \<exists>p. fst e = Rmtree p"
    using cleanup_calls [OF c] by blast
  have "r \<noteq> None" using cleanup_result [OF c] ps by blast
  moreover have "(\<exists>p. fst e = Makedirs p) \<or> (\<exists>p. fst e = Mkdtemp p) \<or> (\<exists>p. fst e = Rmtree p)"
    if "e \<in> set tr" for e
  proof -
    from that tr consider "e \<in> set pevs" | "e \<in> set sevs" | "e \<in> set fevs" by auto
    then show ?thesis using pe ps fe by cases blast+
  qed
  ultimately show ?thesis by blast
qed

lemma run_cleanup:
  assumes "download_video env (traced os) cfg url out td ct (w, []) = (r, (w', tr))"
    and "effective_cleanup cfg ct" and "local_temp_directory (traced os) cfg td (w, []) = Some t"
  shows "\<not> path_exists os t w' \<or> (\<exists>ok. tr \<noteq> [] \<and> last tr = (Rmtree t, ok))"
proof -
  from download_video_trace [OF assms(1)] obtain prepared pending w1 pevs sevs fevs where
    tr: "tr = pevs @ sevs @ fevs" and p: "prepare_trace prepared pevs"
    and l: "local_temp_directory (traced os) cfg td (w, []) = (case prepared of Inl e \<Rightarrow> td | Inr t \<Rightarrow> Some t)"
    and f: "isl prepared \<longrightarrow> sevs = [] \<and> pending \<noteq> None"
    and s: "\<forall>t. prepared = Inr t \<longrightarrow> stages_trace env os url out t pending sevs"
    and c: "cleanup_trace os (effective_cleanup cfg ct)
       (local_temp_directory (traced os) cfg td (w, [])) pending r w1 w' fevs"
    by (elim exE conjE) (rule that)
  from c assms(2,3) have "cleanup_trace os True (Some t) pending r w1 w' fevs" by simp
  from cleanup_last [OF this] consider "\<not> path_exists os t w'" | ok where "fevs = [(Rmtree t, ok)]"
    by blast
  then show ?thesis
  proof cases
    case 1
    then show ?thesis by simp
  next
    case 2
    then have "tr \<noteq> [] \<and> last tr = (Rmtree t, ok)" by (simp add: tr)
    then show ?thesis by blast
  qed
qed





lemma run_fetch_failed:
  assumes "download_video env (traced os) cfg url out td ct (w, []) = (r, (w', tr))"
    and "(DownloadFiles m, False) \<in> set tr"
  shows "r \<noteq> None \<and> (\<forall>e\<in>set tr. (\<forall>p ls. fst e \<noteq> WriteLines p ls) \<and> (\<forall>cmd. fst e \<noteq> Run cmd))"
proof -
  from download_video_trace [OF assms(1)] obtain prepared pending w1 pevs sevs fevs where
    tr: "tr = pevs @ sevs @ fevs" and p: "prepare_trace prepared pevs"
    and l: "local_temp_directory (traced os) cfg td (w, []) = (case prepared of Inl e \<Rightarrow> td | Inr t \<Rightarrow> Some t)"
    and f: "isl prepared \<longrightarrow> sevs = [] \<and> pending \<noteq> None"
    and s: "\<forall>t. prepared = Inr t \<longrightarrow> stages_trace env os url out t pending sevs"
    and c: "cleanup_trace os (effective_cleanup cfg ct)
       (local_temp_directory (traced os) cfg td (w, [])) pending r w1 w' fevs"
    by (elim exE conjE) (rule that)
  have "(DownloadFiles m, False) \<notin> set pevs"
  proof
    assume "(DownloadFiles m, False) \<in> set pevs"
    from prepare_calls [OF p this] show False by simp
  qed
  moreover have "(DownloadFiles m, False) \<notin> set fevs"
  proof
    assume "(DownloadFiles m, False) \<in> set fevs"
    from cleanup_calls [OF c this] show False by simp
  qed
  ultimately have in_s: "(DownloadFiles m, False) \<in> set sevs" using assms(2) tr by simp
  with f obtain t where t: "prepared = Inr t" by (cases prepared) auto
  with s have st: "stages_trace env os url out t pending sevs" by simp
  from stages_fetch_failed [OF st in_s] have
    pn: "pending \<noteq> None" and sv: "\<forall>e\<in>set sevs. (\<exists>p. fst e = Makedirs p) \<or> (\<exists>m. fst e = DownloadFiles m)"
    by blast+
  have pe: "\<forall>e\<in>set pevs. (\<exists>p. fst e = Makedirs p) \<or> (\<exists>p. fst e = Mkdtemp p)"
    using prepare_calls [OF p] by blast
  have fe: "\<forall>e\<in>set fevs. \<exists>p. fst e = Rmtree p"
    using cleanup_calls [OF c] by blast
  have "(\<forall>p ls. fst e \<noteq> WriteLines p ls) \<and> (\<forall>cmd. fst e \<noteq> Run cmd)" if "e \<in> set tr" for e
  proof -
    from that tr consider "e \<in> set pevs" | "e \<in> set sevs" | "e \<in> set fevs" by auto
    then show ?thesis
    proof cases
      case 1
      with pe show ?thesis by fastforce
    next
      case 2
      with sv show ?thesis by fastforce
    next
      case 3
      with fe show ?thesis by fastforce
    qed
  qed
  with cleanup_result [OF c pn] show ?thesis by blast
qed






subsection \<open>What every call of a run preserves\<close>
















subsection \<open>The claims about the pipeline\<close>

text \<open>
  \<^bold>\<open>Claim C5\<close>. Whatever the two processes do (exit with status 0, exit with another
  status, or fail to start), and whatever the writing of the manifest does: when
  \<^verbatim>\<open>_merge_and_convert_segments\<close> returns a value, the manifest does not exist. It assumes
  of \<^verbatim>\<open>os.remove\<close> that a call which returns has removed the path. The function fails to
  return a value only when \<^verbatim>\<open>os.remove\<close> itself raises in the \<^verbatim>\<open>finally\<close> clause.
\<close>

theorem manifest_absent_after_merge_and_convert:
  assumes "\<forall>p w w'. remove os p w = (None, w') \<longrightarrow> \<not> path_exists os p w'"
    and "merge_and_convert_segments os segment_files ts out w = (r, w')"
  shows "(\<forall>success. r = Inr success \<longrightarrow> \<not> path_exists os (ts @ ''.txt'') w')
       \<and> (isl r \<longrightarrow> (\<exists>w1 e. path_exists os (ts @ ''.txt'') w1
                         \<and> remove os (ts @ ''.txt'') w1 = (Some e, w')
                         \<and> r = Inl (ExternalError e)))"
proof -
  obtain b w1 where t: "merge_and_convert_try os segment_files ts out w = (b, w1)"
    by (metis surj_pair)
  show ?thesis
  proof (cases "path_exists os (ts @ ''.txt'') w1")
    case False
    with t assms(2) show ?thesis by (auto simp: merge_and_convert_segments_def)
  next
    case True
    obtain x w2 where rm: "remove os (ts @ ''.txt'') w1 = (x, w2)" by (metis surj_pair)
    show ?thesis
    proof (cases x)
      case None
      with rm assms(1) have "\<not> path_exists os (ts @ ''.txt'') w2" by blast
      with None rm True t assms(2) show ?thesis by (auto simp: merge_and_convert_segments_def)
    next
      case (Some e)
      with rm True t assms(2) have "r = Inl (ExternalError e)" "w' = w2"
        by (auto simp: merge_and_convert_segments_def)
      with True rm Some show ?thesis by auto
    qed
  qed
qed

theorem manifest_absent_after_merge_and_convert_witness:
  "merge_and_convert_segments (demo_os id 0 1) [''/tmp/w/ts_segments/segment_0000.ts'']
       ''/tmp/w/merged_video.ts'' ''/out/video.mp4'' [''/tmp/w'']
     = (Inr False, [''/out/video.mp4'', ''/tmp/w/merged_video.ts'', ''/tmp/w''])
   \<and> \<not> path_exists (demo_os id 0 1) (''/tmp/w/merged_video.ts'' @ ''.txt'')
         [''/out/video.mp4'', ''/tmp/w/merged_video.ts'', ''/tmp/w'']"
proof -
  have c: "\<forall>p w w'. remove (demo_os id 0 1) p w = (None, w') \<longrightarrow> \<not> path_exists (demo_os id 0 1) p w'"
    by (auto simp: demo_os_def split: if_splits)
  have e: "merge_and_convert_segments (demo_os id 0 1) [''/tmp/w/ts_segments/segment_0000.ts'']
       ''/tmp/w/merged_video.ts'' ''/out/video.mp4'' [''/tmp/w'']
     = (Inr False, [''/out/video.mp4'', ''/tmp/w/merged_video.ts'', ''/tmp/w''])"
    by code_simp
  from manifest_absent_after_merge_and_convert [OF c e] e show ?thesis by blast
qed

text \<open>
  \<^bold>\<open>Claim C9\<close>. In every run of \<^verbatim>\<open>download_video\<close>: once a call of a forward stage has
  failed (the creation of a directory, the batch fetch, the writing of the manifest, the
  concatenation, the remux), every later call is a removal, and the caller gets an
  exception; when the resolution fails, the directories are prepared and nothing is
  fetched, written or run; and the \<^verbatim>\<open>finally\<close> clause still does its work: with the
  cleanup flag set, the last call is the recursive removal of the workspace unless the
  workspace does not exist.
\<close>

theorem failure_stops_forward_stages:
  assumes "download_video env (traced os) cfg url out td ct (w, []) = (r, (w', tr))"
  shows "halts_on_failure tr
       \<and> ((\<exists>c. (c, False) \<in> set tr \<and> \<not> is_removal c) \<longrightarrow> r \<noteq> None)
       \<and> (isl (extract_segment_urls env url 5 0) \<longrightarrow>
            r \<noteq> None
            \<and> (\<forall>e\<in>set tr. (\<exists>p. fst e = Makedirs p) \<or> (\<exists>p. fst e = Mkdtemp p)
                  \<or> (\<exists>p. fst e = Rmtree p)))
       \<and> (\<forall>m. (DownloadFiles m, False) \<in> set tr \<longrightarrow>
            r \<noteq> None
            \<and> (\<forall>e\<in>set tr. (\<forall>p ls. fst e \<noteq> WriteLines p ls) \<and> (\<forall>cmd. fst e \<noteq> Run cmd)))
       \<and> (effective_cleanup cfg ct \<longrightarrow>
            (\<forall>t. local_temp_directory (traced os) cfg td (w, []) = Some t \<longrightarrow>
               \<not> path_exists os t w' \<or> (\<exists>ok. tr \<noteq> [] \<and> last tr = (Rmtree t, ok))))"
proof -
  have a: "halts_on_failure tr" by (rule run_halts [OF assms])
  have b: "(\<exists>c. (c, False) \<in> set tr \<and> \<not> is_removal c) \<longrightarrow> r \<noteq> None"
    using run_failure [OF assms] by blast
  have c: "isl (extract_segment_urls env url 5 0) \<longrightarrow>
            r \<noteq> None
            \<and> (\<forall>e\<in>set tr. (\<exists>p. fst e = Makedirs p) \<or> (\<exists>p. fst e = Mkdtemp p)
                  \<or> (\<exists>p. fst e = Rmtree p))"
    using run_unresolved [OF assms] by (rule impI)
  have d: "\<forall>m. (DownloadFiles m, False) \<in> set tr \<longrightarrow>
            r \<noteq> None
            \<and> (\<forall>e\<in>set tr. (\<forall>p ls. fst e \<noteq> WriteLines p ls) \<and> (\<forall>cmd. fst e \<noteq> Run cmd))"
    using run_fetch_failed [OF assms] by (intro allI impI)
  have e: "effective_cleanup cfg ct \<longrightarrow>
            (\<forall>t. local_temp_directory (traced os) cfg td (w, []) = Some t \<longrightarrow>
               \<not> path_exists os t w' \<or> (\<exists>ok. tr \<noteq> [] \<and> last tr = (Rmtree t, ok)))"
    using run_cleanup [OF assms] by (intro allI impI)
  show ?thesis by (intro conjI; fact)
qed

theorem failure_stops_forward_stages_witness:
  "download_video demo_env (traced (demo_os id 0 0)) demo_cfg ''http://h/v/gone.m3u8''
         ''/out/video.mp4'' (Some ''/tmp/w'') None ([], [])
       = (Some (ExternalError ''HTTPError''), [''/out''],
          [(Makedirs ''/tmp/w'', True), (Makedirs ''/tmp/w/ts_segments'', True),
           (Makedirs ''/out'', True), (Rmtree ''/tmp/w'', True)])
   \<and> isl (extract_segment_urls demo_env ''http://h/v/gone.m3u8'' 5 0)
   \<and> effective_cleanup demo_cfg None
   \<and> halts_on_failure [(Makedirs ''/tmp/w'', True), (Makedirs ''/tmp/w/ts_segments'', True),
           (Makedirs ''/out'', True), (Rmtree ''/tmp/w'', True)]
   \<and> \<not> path_exists (demo_os id 0 0) ''/tmp/w'' [''/out'']"
proof -
  have e: "download_video demo_env (traced (demo_os id 0 0)) demo_cfg ''http://h/v/gone.m3u8''
         ''/out/video.mp4'' (Some ''/tmp/w'') None ([], [])
       = (Some (ExternalError ''HTTPError''), [''/out''],
          [(Makedirs ''/tmp/w'', True), (Makedirs ''/tmp/w/ts_segments'', True),
           (Makedirs ''/out'', True), (Rmtree ''/tmp/w'', True)])"
    by code_simp
  have x: "isl (extract_segment_urls demo_env ''http://h/v/gone.m3u8'' 5 0)"
    by (simp add: extract_segment_urls.simps demo_defs)
  have k: "effective_cleanup demo_cfg None" by (simp add: effective_cleanup_def demo_cfg_def)
  have n: "\<not> path_exists (demo_os id 0 0) ''/tmp/w'' [''/out'']" by (simp add: demo_os_def)
  from failure_stops_forward_stages [OF e] have
    "halts_on_failure [(Makedirs ''/tmp/w'', True), (Makedirs ''/tmp/w/ts_segments'', True),
           (Makedirs ''/out'', True), (Rmtree ''/tmp/w'', True)]" by blast
  with e x k n show ?thesis by blast
qed











end
